theory Spec2Isabelle
  imports Complex_Main "HOL-Library.Sublist" "HOL-Library.Char_ord" "HOL-Library.List_Lexorder"
begin

section \<open>Python values, dictionaries and errors\<close>

text \<open>
  The simulation engine of the repository (\<^verbatim>\<open>simulation/__init__.py\<close>,
  \<^verbatim>\<open>agents/__init__.py\<close>, \<^verbatim>\<open>llm_integration.py\<close>) is embedded function by
  function.  Python floats are modelled as reals and Python ints as integers.  The values
  stored in the dictionaries that the engine passes around are strings, numbers and lists
  of strings; Python identifies \<^verbatim>\<open>1\<close> and \<^verbatim>\<open>1.0\<close> under \<^verbatim>\<open>==\<close>, so one numeric constructor
  carries both.
\<close>

datatype pyval = Str string | Num real | StrList "string list"

datatype error = KeyError | TypeError | ZeroDivisionError | ValueError | NetworkXError

type_synonym pydict = "(string \<times> pyval) list"

definition dict_has :: "pydict \<Rightarrow> string \<Rightarrow> bool" where
  "dict_has d k = (map_of d k \<noteq> None)"

text \<open>\<^verbatim>\<open>d[k] = v\<close>: an existing key keeps its position, a new key is appended.\<close>

fun dict_set :: "('k \<times> 'v) list \<Rightarrow> 'k \<Rightarrow> 'v \<Rightarrow> ('k \<times> 'v) list" where
  "dict_set [] k v = [(k, v)]"
| "dict_set ((k', v') # d) k v = (if k' = k then (k, v) # d else (k', v') # dict_set d k v)"

text \<open>\<^verbatim>\<open>d[k] += x\<close> for a float \<open>x\<close>: a missing key raises, and so does a non-numeric value.\<close>

definition dict_iadd :: "pydict \<Rightarrow> string \<Rightarrow> real \<Rightarrow> error + pydict" where
  "dict_iadd d k x =
     (case map_of d k of
        None \<Rightarrow> Inl KeyError
      | Some (Num y) \<Rightarrow> Inr (dict_set d k (Num (y + x)))
      | Some _ \<Rightarrow> Inl TypeError)"

text \<open>\<^verbatim>\<open>d.get(k, default)\<close> where the caller goes on to use the value as a string.\<close>

definition dict_get_str :: "pydict \<Rightarrow> string \<Rightarrow> string \<Rightarrow> string" where
  "dict_get_str d k dflt = (case map_of d k of Some (Str s) \<Rightarrow> s | _ \<Rightarrow> dflt)"

section \<open>Agents\<close>

datatype AgentType = CUSTOMER | COMPETITOR | INFLUENCER | INTERNAL_TEAM

datatype PersonalityTrait =
  EARLY_ADOPTER | LATE_MAJORITY | LAGGARD | TRAIT_INFLUENCER | SKEPTIC | ENTHUSIAST

fun agent_type_value :: "AgentType \<Rightarrow> string" where
  "agent_type_value CUSTOMER = ''customer''"
| "agent_type_value COMPETITOR = ''competitor''"
| "agent_type_value INFLUENCER = ''influencer''"
| "agent_type_value INTERNAL_TEAM = ''internal_team''"

fun trait_value :: "PersonalityTrait \<Rightarrow> string" where
  "trait_value EARLY_ADOPTER = ''early_adopter''"
| "trait_value LATE_MAJORITY = ''late_majority''"
| "trait_value LAGGARD = ''laggard''"
| "trait_value TRAIT_INFLUENCER = ''influencer''"
| "trait_value SKEPTIC = ''skeptic''"
| "trait_value ENTHUSIAST = ''enthusiast''"

record AgentGenome =
  agent_type :: AgentType
  demographics :: pydict
  psychographics :: pydict
  behavioral_patterns :: pydict
  influence_score :: real
  attention_tokens :: int
  personality_traits :: "PersonalityTrait list"

record Agent =
  genome :: AgentGenome
  name :: string
  memory :: "string list"
  relationships :: "(string \<times> real) list"
  current_opinion :: real

text \<open>\<^verbatim>\<open>Agent.__init__\<close> once the name is known: empty memory, neutral opinion.\<close>

definition Agent_init :: "AgentGenome \<Rightarrow> string \<Rightarrow> Agent" where
  "Agent_init g n =
     \<lparr>genome = g, name = n, memory = [], relationships = [], current_opinion = 0.5\<rparr>"

section \<open>The feature-analysis boundary\<close>

record AgentContext =
  role :: AgentType
  ctx_genome :: AgentGenome
  ctx_current_opinion :: real
  ctx_memory :: "string list"
  ctx_relationships :: "(string \<times> real) list"
  ctx_attention_tokens :: int

record FeatureAnalysis =
  feature_title :: string
  opinion_shift :: real
  reasoning :: string
  objections :: "string list"
  suggestions :: "string list"
  influence_impact :: real
  attention_spent :: int

text \<open>
  \<^verbatim>\<open>llm_integration.analyze_feature_as_agent\<close> is either a language-model call or the
  heuristic fallback.  A backend is a function from its own state (the random generator,
  or whatever the remote model answers), the feature and the agent's context to an
  analysis and the backend's next state.
\<close>

type_synonym 'b backend = "'b \<Rightarrow> pydict \<Rightarrow> AgentContext \<Rightarrow> FeatureAnalysis \<times> 'b"

definition make_context :: "Agent \<Rightarrow> AgentContext" where
  "make_context a =
     \<lparr>role = agent_type (genome a), ctx_genome = genome a,
      ctx_current_opinion = current_opinion a, ctx_memory = memory a,
      ctx_relationships = relationships a,
      ctx_attention_tokens = attention_tokens (genome a)\<rparr>"

text \<open>The part of \<^verbatim>\<open>Agent.process_feature\<close> that follows the awaited analysis.\<close>

definition apply_analysis :: "FeatureAnalysis \<Rightarrow> Agent \<Rightarrow> Agent \<times> pydict" where
  "apply_analysis analysis a =
     (let op' = max 0 (min 1 (current_opinion a + opinion_shift analysis));
          g' = (genome a)\<lparr>attention_tokens :=
                  attention_tokens (genome a) - attention_spent analysis\<rparr>;
          mem1 = memory a @ [reasoning analysis];
          mem' = (if length mem1 > 10 then tl mem1 else mem1);
          a' = a\<lparr>genome := g', memory := mem', current_opinion := op'\<rparr>
      in (a',
          [(''agent_name'', Str (name a')),
           (''agent_type'', Str (agent_type_value (agent_type (genome a')))),
           (''opinion'', Num (current_opinion a')),
           (''tokens_spent'', Num (of_int (attention_spent analysis))),
           (''reasoning'', Str (reasoning analysis)),
           (''objections'', StrList (objections analysis)),
           (''suggestions'', StrList (suggestions analysis)),
           (''influence_impact'', Num (influence_impact analysis))]))"

definition process_feature ::
  "'b backend \<Rightarrow> 'b \<Rightarrow> pydict \<Rightarrow> Agent \<Rightarrow> (Agent \<times> pydict) \<times> 'b" where
  "process_feature backend b feature a =
     (let (analysis, b') = backend b feature (make_context a)
      in (apply_analysis analysis a, b'))"

section \<open>The random generator\<close>

text \<open>
  Python's \<^verbatim>\<open>random\<close> module is outside the repository.  The generator is taken as a
  parameter: an arbitrary sequence of reals, whose fractional parts are the successive
  values of \<^verbatim>\<open>random.random()\<close> in \<open>[0, 1)\<close>.  The other functions of the module are
  given by their documented contracts in terms of it; every outcome that the library can
  produce is the outcome of some sequence.
\<close>

type_synonym rng = "nat \<Rightarrow> real"

definition random_random :: "rng \<Rightarrow> real \<times> rng" where
  "random_random g = (frac (g 0), \<lambda>n. g (Suc n))"

text \<open>A uniform index below \<open>n\<close>, for \<open>n > 0\<close>.\<close>

definition randbelow :: "nat \<Rightarrow> rng \<Rightarrow> nat \<times> rng" where
  "randbelow n g = (let (u, g') = random_random g in (nat \<lfloor>u * real n\<rfloor>, g'))"

text \<open>\<^verbatim>\<open>random.uniform(a, b)\<close> is \<^verbatim>\<open>a + (b - a) * random()\<close>.\<close>

definition random_uniform :: "real \<Rightarrow> real \<Rightarrow> rng \<Rightarrow> real \<times> rng" where
  "random_uniform a b g = (let (u, g') = random_random g in (a + (b - a) * u, g'))"

text \<open>\<^verbatim>\<open>random.randint(a, b)\<close>, an integer of \<open>[a, b]\<close>; the library raises for \<open>b < a\<close>.\<close>

definition random_randint :: "int \<Rightarrow> int \<Rightarrow> rng \<Rightarrow> int \<times> rng" where
  "random_randint a b g = (let (k, g') = randbelow (nat (b - a + 1)) g in (a + int k, g'))"

text \<open>\<^verbatim>\<open>random.choice(seq)\<close> for a non-empty sequence.\<close>

definition random_choice :: "'a list \<Rightarrow> rng \<Rightarrow> 'a \<times> rng" where
  "random_choice xs g = (let (k, g') = randbelow (length xs) g in (xs ! k, g'))"

text \<open>
  \<^verbatim>\<open>random.sample(population, k)\<close> for \<open>0 \<le> k \<le> len(population)\<close>: \<open>k\<close> elements at
  distinct positions, each drawn from the positions not yet taken.
\<close>

fun random_sample :: "'a list \<Rightarrow> nat \<Rightarrow> rng \<Rightarrow> 'a list \<times> rng" where
  "random_sample pool 0 g = ([], g)"
| "random_sample pool (Suc k) g =
     (let (j, g1) = randbelow (length pool) g;
          (rest, g2) = random_sample (take j pool @ drop (Suc j) pool) k g1
      in (pool ! j # rest, g2))"

section \<open>Strings\<close>

definition digit_char :: "nat \<Rightarrow> char" where
  "digit_char d = ''0123456789'' ! d"

text \<open>\<^verbatim>\<open>str(n)\<close> for a natural number.\<close>

fun str_nat :: "nat \<Rightarrow> string" where
  "str_nat n = (if n < 10 then [digit_char n] else str_nat (n div 10) @ [digit_char (n mod 10)])"

declare str_nat.simps [simp del]

text \<open>\<^verbatim>\<open>s.upper()\<close> and \<^verbatim>\<open>s.lower()\<close> on ASCII text.\<close>

definition upper_char :: "char \<Rightarrow> char" where
  "upper_char c =
     (case map_of (zip ''abcdefghijklmnopqrstuvwxyz'' ''ABCDEFGHIJKLMNOPQRSTUVWXYZ'') c of
        Some d \<Rightarrow> d | None \<Rightarrow> c)"

definition lower_char :: "char \<Rightarrow> char" where
  "lower_char c =
     (case map_of (zip ''ABCDEFGHIJKLMNOPQRSTUVWXYZ'' ''abcdefghijklmnopqrstuvwxyz'') c of
        Some d \<Rightarrow> d | None \<Rightarrow> c)"

definition py_upper :: "string \<Rightarrow> string" where
  "py_upper s = map upper_char s"

definition py_lower :: "string \<Rightarrow> string" where
  "py_lower s = map lower_char s"

section \<open>The agent factory and the population builder\<close>

definition unnamed_genome :: "AgentType \<Rightarrow> AgentGenome" where
  "unnamed_genome t =
     \<lparr>agent_type = t, demographics = [], psychographics = [], behavioral_patterns = [],
      influence_score = 0.5, attention_tokens = 100, personality_traits = []\<rparr>"

text \<open>\<^verbatim>\<open>Agent(genome)\<close> without a name: the role and a random four-digit number.\<close>

definition Agent_default_name :: "AgentGenome \<Rightarrow> rng \<Rightarrow> Agent \<times> rng" where
  "Agent_default_name gen g =
     (let (num, g') = random_randint 1000 9999 g
      in (Agent_init gen (agent_type_value (agent_type gen) @ ''_'' @ str_nat (nat num)), g'))"

definition create_customer_agent :: "rng \<Rightarrow> Agent \<times> rng" where
  "create_customer_agent g0 =
     (let (age, g1) = random_randint 18 65 g0;
          (income_level, g2) = random_choice [''low'', ''middle'', ''high''] g1;
          (location, g3) = random_choice [''urban'', ''suburban'', ''rural''] g2;
          (education, g4) = random_choice [''high_school'', ''college'', ''graduate''] g3;
          (tech_savviness, g5) = random_uniform 0.2 1.0 g4;
          (price_sensitivity, g6) = random_uniform 0.3 0.9 g5;
          (brand_loyalty, g7) = random_uniform 0.1 0.8 g6;
          (social_influence, g8) = random_uniform 0.1 0.7 g7;
          (n, g9) = random_randint 1 3 g8;
          (traits, g10) =
            random_sample [EARLY_ADOPTER, LATE_MAJORITY, LAGGARD, TRAIT_INFLUENCER, SKEPTIC,
                           ENTHUSIAST] (nat n) g9;
          (score, g11) = random_uniform 0.1 0.6 g10
      in Agent_default_name
           ((unnamed_genome CUSTOMER)
              \<lparr>demographics := [(''age'', Num (of_int age)), (''income_level'', Str income_level),
                                (''location'', Str location), (''education'', Str education)],
               psychographics := [(''tech_savviness'', Num tech_savviness),
                                  (''price_sensitivity'', Num price_sensitivity),
                                  (''brand_loyalty'', Num brand_loyalty),
                                  (''social_influence'', Num social_influence)],
               personality_traits := traits,
               influence_score := score\<rparr>) g11)"

definition create_competitor_agent :: "rng \<Rightarrow> Agent \<times> rng" where
  "create_competitor_agent g0 =
     (let (aggressiveness, g1) = random_uniform 0.4 0.9 g0;
          (market_share, g2) = random_uniform 0.1 0.8 g1;
          (innovation_focus, g3) = random_uniform 0.3 0.9 g2;
          (score, g4) = random_uniform 0.6 0.9 g3
      in Agent_default_name
           ((unnamed_genome COMPETITOR)
              \<lparr>psychographics := [(''aggressiveness'', Num aggressiveness),
                                  (''market_share'', Num market_share),
                                  (''innovation_focus'', Num innovation_focus)],
               personality_traits := [SKEPTIC],
               influence_score := score\<rparr>) g4)"

definition create_influencer_agent :: "rng \<Rightarrow> Agent \<times> rng" where
  "create_influencer_agent g0 =
     (let (reach, g1) = random_uniform 0.7 1.0 g0;
          (credibility, g2) = random_uniform 0.5 0.9 g1;
          (engagement_rate, g3) = random_uniform 0.3 0.8 g2;
          (score, g4) = random_uniform 0.7 1.0 g3
      in Agent_default_name
           ((unnamed_genome INFLUENCER)
              \<lparr>psychographics := [(''reach'', Num reach), (''credibility'', Num credibility),
                                  (''engagement_rate'', Num engagement_rate)],
               personality_traits := [TRAIT_INFLUENCER],
               influence_score := score,
               attention_tokens := 150\<rparr>) g4)"

definition create_internal_team_agent :: "string \<Rightarrow> rng \<Rightarrow> Agent \<times> rng" where
  "create_internal_team_agent role_name g0 =
     (let (department_bias, g1) = random_uniform 0.3 0.8 g0;
          (company_loyalty, g2) = random_uniform 0.6 0.9 g1;
          (risk_tolerance, g3) = random_uniform 0.2 0.7 g2;
          (score, g4) = random_uniform 0.4 0.7 g3;
          (num, g5) = random_randint 100 999 g4
      in (Agent_init
            ((unnamed_genome INTERNAL_TEAM)
               \<lparr>demographics := [(''role'', Str role_name)],
                psychographics := [(''department_bias'', Num department_bias),
                                   (''company_loyalty'', Num company_loyalty),
                                   (''risk_tolerance'', Num risk_tolerance)],
                personality_traits := [ENTHUSIAST],
                influence_score := score\<rparr>)
            (py_upper role_name @ ''_'' @ str_nat (nat num)), g5))"

text \<open>Python's \<^verbatim>\<open>int(x)\<close> on a float truncates towards zero.\<close>

definition py_int :: "real \<Rightarrow> int" where
  "py_int x = (if 0 \<le> x then \<lfloor>x\<rfloor> else \<lceil>x\<rceil>)"

definition config_get :: "(string \<times> int) list \<Rightarrow> string \<Rightarrow> int \<Rightarrow> int" where
  "config_get config k dflt = (case map_of config k of Some v \<Rightarrow> v | None \<Rightarrow> dflt)"

text \<open>\<^verbatim>\<open>for _ in range(n): agents.append(create())\<close>.\<close>

fun create_n :: "nat \<Rightarrow> (rng \<Rightarrow> Agent \<times> rng) \<Rightarrow> rng \<Rightarrow> Agent list \<times> rng" where
  "create_n 0 create g = ([], g)"
| "create_n (Suc n) create g =
     (let (a, g1) = create g; (as, g2) = create_n n create g1 in (a # as, g2))"

text \<open>The loop over the internal team: \<open>i\<close> is the loop index, \<open>n\<close> iterations remain.\<close>

fun create_internal :: "nat \<Rightarrow> nat \<Rightarrow> rng \<Rightarrow> Agent list \<times> rng" where
  "create_internal i 0 g = ([], g)"
| "create_internal i (Suc n) g =
     (let role_name = [''pm'', ''sales'', ''cx''] ! (i mod 3);
          (a, g1) = create_internal_team_agent role_name g;
          (as, g2) = create_internal (Suc i) n g1
      in (a # as, g2))"

definition create_agent_population :: "(string \<times> int) list \<Rightarrow> rng \<Rightarrow> Agent list \<times> rng" where
  "create_agent_population config g =
     (let total_agents = 20;
          num_customers =
            py_int ((real_of_int (config_get config ''customer_percentage'' 60) / 100)
                    * real_of_int total_agents);
          num_competitors =
            py_int ((real_of_int (config_get config ''competitor_percentage'' 20) / 100)
                    * real_of_int total_agents);
          num_influencers =
            py_int ((real_of_int (config_get config ''influencer_percentage'' 10) / 100)
                    * real_of_int total_agents);
          num_internal = total_agents - num_customers - num_competitors - num_influencers;
          (cs, g1) = create_n (nat num_customers) create_customer_agent g;
          (ks, g2) = create_n (nat num_competitors) create_competitor_agent g1;
          (fs, g3) = create_n (nat num_influencers) create_influencer_agent g2;
          (ts, g4) = create_internal 0 (nat num_internal) g3
      in (cs @ ks @ fs @ ts, g4))"

section \<open>The influence graph\<close>

datatype NetworkTopology = ECHO_CHAMBER | LOOSE_NETWORK | REAL_FOLLOWER

text \<open>
  The directed graph of the graph library, as far as the engine uses it: the nodes and the
  weighted edges, both in insertion order (the library keeps adjacency in dictionaries,
  which iterate in insertion order).
\<close>

record DiGraph =
  nodes :: "string list"
  edges :: "(string \<times> string \<times> real) list"

definition DiGraph_init :: DiGraph where
  "DiGraph_init = \<lparr>nodes = [], edges = []\<rparr>"

definition add_node :: "string \<Rightarrow> DiGraph \<Rightarrow> DiGraph" where
  "add_node n g = (if n \<in> set (nodes g) then g else g\<lparr>nodes := nodes g @ [n]\<rparr>)"

fun set_edge :: "string \<Rightarrow> string \<Rightarrow> real \<Rightarrow> (string \<times> string \<times> real) list
                 \<Rightarrow> (string \<times> string \<times> real) list" where
  "set_edge u v w [] = [(u, v, w)]"
| "set_edge u v w ((u', v', w') # es) =
     (if u' = u \<and> v' = v then (u, v, w) # es else (u', v', w') # set_edge u v w es)"

text \<open>\<^verbatim>\<open>add_edge(u, v, weight=w)\<close>: missing endpoints become nodes, an existing edge gets
  the new weight.\<close>

definition add_edge :: "string \<Rightarrow> string \<Rightarrow> real \<Rightarrow> DiGraph \<Rightarrow> DiGraph" where
  "add_edge u v w g = (let g' = add_node v (add_node u g) in g'\<lparr>edges := set_edge u v w (edges g')\<rparr>)"

definition has_edge :: "DiGraph \<Rightarrow> string \<Rightarrow> string \<Rightarrow> bool" where
  "has_edge g u v = (\<exists>e \<in> set (edges g). fst e = u \<and> fst (snd e) = v)"

definition predecessors :: "DiGraph \<Rightarrow> string \<Rightarrow> error + string list" where
  "predecessors g n =
     (if n \<in> set (nodes g) then Inr (map fst (filter (\<lambda>e. fst (snd e) = n) (edges g)))
      else Inl NetworkXError)"


record InfluenceGraph =
  topology :: NetworkTopology
  graph :: DiGraph
  ig_agents :: "(string \<times> Agent) list"

definition InfluenceGraph_init :: "NetworkTopology \<Rightarrow> InfluenceGraph" where
  "InfluenceGraph_init t = \<lparr>topology = t, graph = DiGraph_init, ig_agents = []\<rparr>"

definition get_influencers :: "InfluenceGraph \<Rightarrow> string \<Rightarrow> error + string list" where
  "get_influencers ig agent_name = predecessors (graph ig) agent_name"


definition calculate_influence_flow :: "InfluenceGraph \<Rightarrow> string \<Rightarrow> string \<Rightarrow> real" where
  "calculate_influence_flow ig source_agent target_agent =
     (case find (\<lambda>e. fst e = source_agent \<and> fst (snd e) = target_agent) (edges (graph ig)) of
        Some e \<Rightarrow> snd (snd e)
      | None \<Rightarrow> 0)"

section \<open>Building the influence graph\<close>

text \<open>The loop of \<^verbatim>\<open>add_agents\<close>: the dictionary of agents by name, and one node per name.\<close>

fun register_agents :: "Agent list \<Rightarrow> InfluenceGraph \<Rightarrow> InfluenceGraph" where
  "register_agents [] ig = ig"
| "register_agents (a # as) ig =
     register_agents as
       (ig\<lparr>ig_agents := dict_set (ig_agents ig) (name a) a,
           graph := add_node (name a) (graph ig)\<rparr>)"

text \<open>Echo chamber: the loop over \<open>j\<close>, for the agent at position \<open>i\<close>.\<close>

fun echo_inner ::
  "(string \<times> Agent) list \<Rightarrow> nat \<Rightarrow> string \<Rightarrow> Agent \<Rightarrow> (nat \<times> string) list \<Rightarrow> DiGraph \<Rightarrow> rng
     \<Rightarrow> error + (DiGraph \<times> rng)" where
  "echo_inner d i agent_name agent [] gr g = Inr (gr, g)"
| "echo_inner d i agent_name agent ((j, other_name) # rest) gr g =
     (if i \<noteq> j then
        (case map_of d other_name of
           None \<Rightarrow> Inl KeyError
         | Some other_agent \<Rightarrow>
             (let similarity = 1 - \<bar>current_opinion agent - current_opinion other_agent\<bar>;
                  (u, g') = random_random g
              in echo_inner d i agent_name agent rest
                   (if u < similarity * 0.3 then add_edge agent_name other_name similarity gr
                    else gr) g'))
      else echo_inner d i agent_name agent rest gr g)"

fun echo_outer ::
  "(string \<times> Agent) list \<Rightarrow> (nat \<times> string) list \<Rightarrow> (nat \<times> string) list \<Rightarrow> DiGraph \<Rightarrow> rng
     \<Rightarrow> error + (DiGraph \<times> rng)" where
  "echo_outer d all_names [] gr g = Inr (gr, g)"
| "echo_outer d all_names ((i, agent_name) # rest) gr g =
     (case map_of d agent_name of
        None \<Rightarrow> Inl KeyError
      | Some agent \<Rightarrow>
          (case echo_inner d i agent_name agent all_names gr g of
             Inl e \<Rightarrow> Inl e
           | Inr (gr', g') \<Rightarrow> echo_outer d all_names rest gr' g'))"

text \<open>Loose network: the edges of one agent, each with a fresh weight.\<close>

fun add_weighted_edges :: "string \<Rightarrow> string list \<Rightarrow> DiGraph \<Rightarrow> rng \<Rightarrow> DiGraph \<times> rng" where
  "add_weighted_edges agent_name [] gr g = (gr, g)"
| "add_weighted_edges agent_name (connection # rest) gr g =
     (let (weight, g') = random_uniform 0.1 1.0 g
      in add_weighted_edges agent_name rest (add_edge agent_name connection weight gr) g')"

fun loose_loop ::
  "string list \<Rightarrow> string list \<Rightarrow> DiGraph \<Rightarrow> rng \<Rightarrow> error + (DiGraph \<times> rng)" where
  "loose_loop agent_names [] gr g = Inr (gr, g)"
| "loose_loop agent_names (agent_name # rest) gr g =
     (let (num_connections, g1) = random_randint 2 4 g;
          candidates = filter (\<lambda>n. n \<noteq> agent_name) agent_names;
          k = min num_connections (int (length agent_names) - 1)
      in if k < 0 \<or> int (length candidates) < k then Inl ValueError
         else
           (let (connections, g2) = random_sample candidates (nat k) g1;
                (gr', g3) = add_weighted_edges agent_name connections gr g2
            in loose_loop agent_names rest gr' g3))"

text \<open>Real follower: the edges of one follower, weighted by the influencer's score.\<close>

fun add_follow_edges ::
  "(string \<times> Agent) list \<Rightarrow> string \<Rightarrow> string list \<Rightarrow> DiGraph \<Rightarrow> error + DiGraph" where
  "add_follow_edges d follower [] gr = Inr gr"
| "add_follow_edges d follower (influencer # rest) gr =
     (case map_of d influencer of
        None \<Rightarrow> Inl KeyError
      | Some a \<Rightarrow>
          add_follow_edges d follower rest
            (add_edge follower influencer (influence_score (genome a)) gr))"

fun follow_loop ::
  "(string \<times> Agent) list \<Rightarrow> string list \<Rightarrow> string list \<Rightarrow> DiGraph \<Rightarrow> rng
     \<Rightarrow> error + (DiGraph \<times> rng)" where
  "follow_loop d influencers [] gr g = Inr (gr, g)"
| "follow_loop d influencers (follower # rest) gr g =
     (let hi = min 3 (int (length influencers)) in
      if hi < 1 then Inl ValueError
      else
        (let (num_follows, g1) = random_randint 1 hi g in
         if num_follows < 0 \<or> int (length influencers) < num_follows then Inl ValueError
         else
           (let (followed_influencers, g2) = random_sample influencers (nat num_follows) g1 in
            case add_follow_edges d follower followed_influencers gr of
              Inl e \<Rightarrow> Inl e
            | Inr gr' \<Rightarrow> follow_loop d influencers rest gr' g2)))"

text \<open>The sort key of the real-follower topology, negated: the sort is descending and,
  like Python's, keeps the order of names with equal scores.\<close>

definition descending_key :: "(string \<times> Agent) list \<Rightarrow> string \<Rightarrow> real" where
  "descending_key d x = (case map_of d x of Some a \<Rightarrow> - influence_score (genome a) | None \<Rightarrow> 0)"

definition create_network_edges :: "InfluenceGraph \<Rightarrow> rng \<Rightarrow> error + (InfluenceGraph \<times> rng)" where
  "create_network_edges ig g =
     (let agent_names = map fst (ig_agents ig) in
      case
        (case topology ig of
           ECHO_CHAMBER \<Rightarrow>
             echo_outer (ig_agents ig) (enumerate 0 agent_names) (enumerate 0 agent_names)
               (graph ig) g
         | LOOSE_NETWORK \<Rightarrow> loose_loop agent_names agent_names (graph ig) g
         | REAL_FOLLOWER \<Rightarrow>
             (if \<not> list_all (\<lambda>x. map_of (ig_agents ig) x \<noteq> None) agent_names then Inl KeyError
              else
                (let sorted_agents = sort_key (descending_key (ig_agents ig)) agent_names;
                     num_influencers = max 1 (length sorted_agents div 5);
                     influencers = take num_influencers sorted_agents;
                     followers = drop num_influencers sorted_agents
                 in follow_loop (ig_agents ig) influencers followers (graph ig) g)))
      of Inl e \<Rightarrow> Inl e
       | Inr (gr, g') \<Rightarrow> Inr (ig\<lparr>graph := gr\<rparr>, g'))"

definition add_agents :: "InfluenceGraph \<Rightarrow> Agent list \<Rightarrow> rng \<Rightarrow> error + (InfluenceGraph \<times> rng)" where
  "add_agents ig agents g = create_network_edges (register_agents agents ig) g"

section \<open>One round of the simulation\<close>

text \<open>
  The agent objects live in the population list; an object is identified by its position
  there.  \<^verbatim>\<open>self.agents\<close> of the simulator maps a name to an object, that is, to a
  position.
\<close>

record AdvancedSimulator =
  network_topology :: NetworkTopology
  influence_graph :: InfluenceGraph
  sim_agents :: "(string \<times> nat) list"

text \<open>
  The fan-out of \<^verbatim>\<open>_run_single_round\<close>: one \<^verbatim>\<open>process_feature\<close> per agent, awaited
  together.  Each call reads and writes its own agent only, so running them in population
  order loses nothing but the order in which the backend is asked.
\<close>

fun gather_process ::
  "'b backend \<Rightarrow> pydict \<Rightarrow> Agent list \<Rightarrow> 'b \<Rightarrow> (Agent list \<times> pydict list) \<times> 'b" where
  "gather_process backend feature [] b = (([], []), b)"
| "gather_process backend feature (a # as) b =
     (let ((a', r), b1) = process_feature backend b feature a;
          ((as', rs), b2) = gather_process backend feature as b1
      in ((a' # as', r # rs), b2))"

text \<open>The body of the loop over the influencers of agent \<open>i\<close>.\<close>

definition influence_step ::
  "AdvancedSimulator \<Rightarrow> nat \<Rightarrow> string \<Rightarrow> Agent list \<times> pydict \<Rightarrow> error + (Agent list \<times> pydict)" where
  "influence_step sim i influencer_name s =
     (let (st, result) = s; agent = st ! i in
      case map_of (sim_agents sim) influencer_name of
        None \<Rightarrow> Inl KeyError
      | Some j \<Rightarrow>
          (let influencer = st ! j;
               influence_strength =
                 calculate_influence_flow (influence_graph sim) influencer_name (name agent);
               shift = (current_opinion influencer - current_opinion agent)
                         * influence_strength * 0.1;
               st' = st[i := agent\<lparr>current_opinion :=
                                    max 0 (min 1 (current_opinion agent + shift))\<rparr>]
           in case dict_iadd result ''influence_impact'' \<bar>shift\<bar> of
                Inl e \<Rightarrow> Inl e
              | Inr result' \<Rightarrow> Inr (st', result')))"

fun apply_influencers ::
  "AdvancedSimulator \<Rightarrow> nat \<Rightarrow> string list \<Rightarrow> Agent list \<times> pydict
     \<Rightarrow> error + (Agent list \<times> pydict)" where
  "apply_influencers sim i [] s = Inr s"
| "apply_influencers sim i (influencer_name # rest) s =
     (case influence_step sim i influencer_name s of
        Inl e \<Rightarrow> Inl e
      | Inr s' \<Rightarrow> apply_influencers sim i rest s')"

text \<open>The loop \<^verbatim>\<open>for i, result in enumerate(agent_results)\<close>, from position \<open>i\<close> on.\<close>

fun propagate ::
  "AdvancedSimulator \<Rightarrow> nat \<Rightarrow> pydict list \<Rightarrow> Agent list \<Rightarrow> error + (Agent list \<times> pydict list)" where
  "propagate sim i [] st = Inr (st, [])"
| "propagate sim i (result # results) st =
     (case get_influencers (influence_graph sim) (name (st ! i)) of
        Inl e \<Rightarrow> Inl e
      | Inr influencers \<Rightarrow>
          (case apply_influencers sim i influencers (st, result) of
             Inl e \<Rightarrow> Inl e
           | Inr (st', result') \<Rightarrow>
               (case propagate sim (Suc i) results st' of
                  Inl e \<Rightarrow> Inl e
                | Inr (st'', rs) \<Rightarrow> Inr (st'', result' # rs))))"

text \<open>The loop over the features of the brief; the interactions accumulate in order.\<close>

fun run_features ::
  "AdvancedSimulator \<Rightarrow> 'b backend \<Rightarrow> pydict list \<Rightarrow> Agent list \<Rightarrow> 'b
     \<Rightarrow> error + ((Agent list \<times> pydict list) \<times> 'b)" where
  "run_features sim backend [] st b = Inr ((st, []), b)"
| "run_features sim backend (feature # fs) st b =
     (let ((st1, agent_results), b1) = gather_process backend feature st b in
      case propagate sim 0 agent_results st1 of
        Inl e \<Rightarrow> Inl e
      | Inr (st2, feature_interactions) \<Rightarrow>
          (case run_features sim backend fs st2 b1 of
             Inl e \<Rightarrow> Inl e
           | Inr ((st3, rest), b2) \<Rightarrow> Inr ((st3, feature_interactions @ rest), b2)))"

record RoundResult =
  round :: nat
  interactions :: "pydict list"
  average_opinion :: real

definition run_single_round ::
  "AdvancedSimulator \<Rightarrow> 'b backend \<Rightarrow> pydict list \<Rightarrow> Agent list \<Rightarrow> nat \<Rightarrow> 'b
     \<Rightarrow> error + ((Agent list \<times> RoundResult) \<times> 'b)" where
  "run_single_round sim backend brief_features st round_num b =
     (case run_features sim backend brief_features st b of
        Inl e \<Rightarrow> Inl e
      | Inr ((st', acts), b') \<Rightarrow>
          if length st' = 0 then Inl ZeroDivisionError
          else Inr ((st', \<lparr>round = round_num + 1, interactions = acts,
                          average_opinion =
                            sum_list (map current_opinion st') / real (length st')\<rparr>), b'))"

section \<open>Rounds and final scores\<close>

text \<open>The loop over the rounds in \<^verbatim>\<open>run_simulation\<close>: \<open>n\<close> rounds remain, the history grows.\<close>

fun run_rounds ::
  "AdvancedSimulator \<Rightarrow> 'b backend \<Rightarrow> pydict list \<Rightarrow> nat \<Rightarrow> nat \<Rightarrow> Agent list
     \<Rightarrow> RoundResult list \<Rightarrow> 'b \<Rightarrow> error + ((Agent list \<times> RoundResult list) \<times> 'b)" where
  "run_rounds sim backend fs round_num 0 st history b = Inr ((st, history), b)"
| "run_rounds sim backend fs round_num (Suc n) st history b =
     (case run_single_round sim backend fs st round_num b of
        Inl e \<Rightarrow> Inl e
      | Inr ((st', round_result), b') \<Rightarrow>
          run_rounds sim backend fs (Suc round_num) n st' (history @ [round_result]) b')"

text \<open>\<^verbatim>\<open>_calculate_adoption_score\<close>.\<close>

definition calculate_adoption_score :: "Agent list \<Rightarrow> real" where
  "calculate_adoption_score agents =
     (let customer_agents = filter (\<lambda>a. agent_type (genome a) = CUSTOMER) agents in
      if customer_agents = [] then 0
      else
        (let total_weighted_opinion =
               sum_list (map (\<lambda>a. current_opinion a * influence_score (genome a)) customer_agents);
             total_weight = sum_list (map (\<lambda>a. influence_score (genome a)) customer_agents)
         in if total_weight > 0 then (total_weighted_opinion / total_weight) * 100 else 0))"

text \<open>Python's \<^verbatim>\<open><\<close> on the values of a record: defined within one kind of value only.\<close>

fun py_lt :: "pyval \<Rightarrow> pyval \<Rightarrow> error + bool" where
  "py_lt (Str a) (Str b) = Inr (a < b)"
| "py_lt (Num a) (Num b) = Inr (a < b)"
| "py_lt (StrList a) (StrList b) = Inr (a < b)"
| "py_lt _ _ = Inl TypeError"

text \<open>\<^verbatim>\<open>tuple(sorted([a, b]))\<close>: the sort asks whether the second is less than the first.\<close>

definition sorted_pair :: "pyval \<Rightarrow> pyval \<Rightarrow> error + (pyval \<times> pyval)" where
  "sorted_pair a b =
     (case py_lt b a of Inl e \<Rightarrow> Inl e | Inr lt \<Rightarrow> Inr (if lt then (b, a) else (a, b)))"

text \<open>The loop of \<^verbatim>\<open>_calculate_engagement_density\<close> over the interactions.\<close>

fun collect_pairs :: "pydict list \<Rightarrow> (pyval \<times> pyval) set \<Rightarrow> error + (pyval \<times> pyval) set" where
  "collect_pairs [] unique_pairs = Inr unique_pairs"
| "collect_pairs (interaction # rest) unique_pairs =
     (if dict_has interaction ''agent_name'' \<and> dict_has interaction ''target_agent'' then
        (case (map_of interaction ''agent_name'', map_of interaction ''target_agent'') of
           (Some a, Some t) \<Rightarrow>
             (case sorted_pair a t of
                Inl e \<Rightarrow> Inl e
              | Inr pair \<Rightarrow> collect_pairs rest (insert pair unique_pairs))
         | _ \<Rightarrow> Inl KeyError)
      else collect_pairs rest unique_pairs)"

definition calculate_engagement_density :: "pydict list \<Rightarrow> error + real" where
  "calculate_engagement_density acts =
     (if acts = [] then Inr 0
      else case collect_pairs acts {} of
             Inl e \<Rightarrow> Inl e
           | Inr unique_pairs \<Rightarrow> Inr (real (card unique_pairs) / real (max (length acts) 1)))"

section \<open>The propagation rule in the words of the specification\<close>

text \<open>
  The specification states the rule on opinions: for a predecessor \<open>P\<close> of an agent,
  \<open>delta = (opinion(P) - opinion(self)) * weight(P -> self) * 0.1\<close> and
  \<open>opinion(self) = clamp(opinion(self) + delta, 0, 1)\<close>, chained over the predecessors, the
  absolute deltas being summed up.  These definitions follow those words, not the code.
\<close>

definition spec_delta :: "real \<Rightarrow> real \<Rightarrow> real \<Rightarrow> real" where
  "spec_delta opinion_P opinion_self weight = (opinion_P - opinion_self) * weight * 0.1"

definition spec_clamp :: "real \<Rightarrow> real \<Rightarrow> real \<Rightarrow> real" where
  "spec_clamp x lo hi = (if x < lo then lo else if hi < x then hi else x)"

fun spec_chain :: "(string \<Rightarrow> real) \<Rightarrow> (string \<Rightarrow> real) \<Rightarrow> real \<Rightarrow> string list \<Rightarrow> real" where
  "spec_chain opinion weight self [] = self"
| "spec_chain opinion weight self (P # Ps) =
     spec_chain opinion weight (spec_clamp (self + spec_delta (opinion P) self (weight P)) 0 1) Ps"

fun spec_impact :: "(string \<Rightarrow> real) \<Rightarrow> (string \<Rightarrow> real) \<Rightarrow> real \<Rightarrow> string list \<Rightarrow> real" where
  "spec_impact opinion weight self [] = 0"
| "spec_impact opinion weight self (P # Ps) =
     \<bar>spec_delta (opinion P) self (weight P)\<bar>
     + spec_impact opinion weight (spec_clamp (self + spec_delta (opinion P) self (weight P)) 0 1) Ps"

text \<open>What the engine's state says about a predecessor: its opinion in a store, and the
  weight of its edge into an agent.\<close>

definition opinion_of :: "AdvancedSimulator \<Rightarrow> Agent list \<Rightarrow> string \<Rightarrow> real" where
  "opinion_of sim st P =
     (case map_of (sim_agents sim) P of Some j \<Rightarrow> current_opinion (st ! j) | None \<Rightarrow> 0)"

definition weight_into :: "AdvancedSimulator \<Rightarrow> string \<Rightarrow> string \<Rightarrow> real" where
  "weight_into sim self P = calculate_influence_flow (influence_graph sim) P self"

text \<open>The influence-score-weighted mean of the specification, and the customer-role agents.\<close>

definition spec_weighted_mean :: "real list \<Rightarrow> real list \<Rightarrow> real" where
  "spec_weighted_mean ws xs = (\<Sum>(w, x)\<leftarrow>zip ws xs. w * x) / sum_list ws"

definition customers :: "Agent list \<Rightarrow> Agent list" where
  "customers agents = filter (\<lambda>a. agent_type (genome a) = CUSTOMER) agents"

text \<open>The count of a role as the specification words it, truncating \<open>(percentage / 100) * 20\<close>,
  and the number of agents of a role in a population.\<close>

definition truncated_count :: "int \<Rightarrow> int" where
  "truncated_count percentage = py_int ((real_of_int percentage / 100) * 20)"

definition count_role :: "AgentType \<Rightarrow> Agent list \<Rightarrow> nat" where
  "count_role t agents = length (filter (\<lambda>a. agent_type (genome a) = t) agents)"

text \<open>The targets of the edges that leave a node, in insertion order (what \<^verbatim>\<open>successors\<close>
  lists), the out-degree, the influence score registered under a name, and an edge that is
  no self-loop and has a positive weight.\<close>

definition out_targets :: "(string \<times> string \<times> real) list \<Rightarrow> string \<Rightarrow> string list" where
  "out_targets es u = map (\<lambda>e. fst (snd e)) (filter (\<lambda>e. fst e = u) es)"


definition score_of :: "(string \<times> Agent) list \<Rightarrow> string \<Rightarrow> real" where
  "score_of d x = (case map_of d x of Some a \<Rightarrow> influence_score (genome a) | None \<Rightarrow> 0)"

definition edge_ok :: "string \<times> string \<times> real \<Rightarrow> bool" where
  "edge_ok e = (fst e \<noteq> fst (snd e) \<and> 0 < snd (snd e))"

section \<open>Invariants and example data\<close>

text \<open>Every opinion of the population lies in the unit interval.\<close>

definition opinions_bounded :: "Agent list \<Rightarrow> bool" where
  "opinions_bounded st = (\<forall>a \<in> set st. 0 \<le> current_opinion a \<and> current_opinion a \<le> 1)"

text \<open>The keys of a record that the round executor produces.\<close>

definition executor_record :: "pydict \<Rightarrow> bool" where
  "executor_record r = (dict_has r ''agent_name'' \<and> \<not> dict_has r ''target_agent'')"

text \<open>The state of an influence graph after \<^verbatim>\<open>add_agents\<close> has registered agents: the
  names are the keys, each once, every key is a node, and an agent is filed under its name.\<close>

definition registered :: "InfluenceGraph \<Rightarrow> bool" where
  "registered ig = (distinct (map fst (ig_agents ig))
                    \<and> fst ` set (ig_agents ig) \<subseteq> set (nodes (graph ig))
                    \<and> (\<forall>p \<in> set (ig_agents ig). name (snd p) = fst p))"

text \<open>An agent as the factory makes it: neutral opinion, an influence score in \<open>(0, 1]\<close>,
  at least 100 attention tokens.\<close>

definition fresh_agent :: "Agent \<Rightarrow> bool" where
  "fresh_agent a = (current_opinion a = 1 / 2 \<and> 0 < influence_score (genome a)
                    \<and> influence_score (genome a) \<le> 1
                    \<and> 100 \<le> attention_tokens (genome a))"

text \<open>A three-agent arena used to run the definitions on concrete data.\<close>

definition demo_genome :: "AgentType \<Rightarrow> real \<Rightarrow> AgentGenome" where
  "demo_genome t s =
     \<lparr>agent_type = t, demographics = [], psychographics = [], behavioral_patterns = [],
      influence_score = s, attention_tokens = 100, personality_traits = []\<rparr>"

definition demo_agents :: "Agent list" where
  "demo_agents = [Agent_init (demo_genome CUSTOMER (1/2)) ''c1'',
                  Agent_init (demo_genome INFLUENCER (4/5)) ''i1'',
                  Agent_init (demo_genome INFLUENCER 1) ''i2'']"

definition demo_sim :: AdvancedSimulator where
  "demo_sim =
     \<lparr>network_topology = REAL_FOLLOWER,
      influence_graph =
        \<lparr>topology = REAL_FOLLOWER,
         graph = \<lparr>nodes = [''c1'', ''i1'', ''i2''],
                  edges = [(''i1'', ''c1'', 4/5), (''i2'', ''c1'', 1)]\<rparr>,
         ig_agents = []\<rparr>,
      sim_agents = [(''c1'', 0), (''i1'', 1), (''i2'', 2)]\<rparr>"

definition demo_backend :: "unit backend" where
  "demo_backend b feature ctx =
     (\<lparr>feature_title = dict_get_str feature ''title'' ''Unknown Feature'',
       opinion_shift = (if role ctx = INFLUENCER then 3/10 else - 1/10),
       reasoning = ''fine'', objections = [], suggestions = [],
       influence_impact = influence_score (ctx_genome ctx),
       attention_spent = 15\<rparr>, b)"

definition demo_feature :: pydict where
  "demo_feature = [(''title'', Str ''Sync''), (''description'', Str ''fast cloud sync'')]"

definition demo_gather :: "(Agent list \<times> pydict list) \<times> unit" where
  "demo_gather = gather_process demo_backend demo_feature demo_agents ()"

text \<open>Role percentages: an even split, and two whose three leading counts exceed the total.\<close>

definition demo_config :: "(string \<times> int) list" where
  "demo_config = [(''customer_percentage'', 25), (''competitor_percentage'', 25),
                  (''influencer_percentage'', 25), (''internal_team_percentage'', 25)]"

definition overfull_config :: "(string \<times> int) list" where
  "overfull_config = [(''customer_percentage'', 40), (''competitor_percentage'', 40),
                      (''influencer_percentage'', 40), (''internal_team_percentage'', 0)]"

definition negative_config :: "(string \<times> int) list" where
  "negative_config = [(''customer_percentage'', 70), (''competitor_percentage'', 20),
                      (''influencer_percentage'', 20), (''internal_team_percentage'', -10)]"



section \<open>Opinions stay in the unit interval\<close>

lemma apply_analysis_opinion:
  "0 \<le> current_opinion (fst (apply_analysis analysis a)) \<and> current_opinion (fst (apply_analysis analysis a)) \<le> 1"
  by (simp add: apply_analysis_def Let_def)

lemma process_feature_opinion:
  "0 \<le> current_opinion (fst (fst (process_feature backend b feature a)))
   \<and> current_opinion (fst (fst (process_feature backend b feature a))) \<le> 1"
  by (simp add: process_feature_def Let_def split_beta apply_analysis_opinion)

lemma influence_step_effect:
  assumes "influence_step sim i p (st, r) = Inr (st', r')"
  obtains j x where "map_of (sim_agents sim) p = Some j"
    and "map_of r ''influence_impact'' = Some (Num x)"
    and "st' = st[i := (st ! i)\<lparr>current_opinion := max 0 (min 1 (current_opinion (st ! i)
            + (current_opinion (st ! j) - current_opinion (st ! i))
              * calculate_influence_flow (influence_graph sim) p (name (st ! i)) * 0.1))\<rparr>]"
    and "r' = dict_set r ''influence_impact''
            (Num (x + \<bar>(current_opinion (st ! j) - current_opinion (st ! i))
              * calculate_influence_flow (influence_graph sim) p (name (st ! i)) * 0.1\<bar>))"
  using assms
  by (auto simp: influence_step_def dict_iadd_def Let_def split: option.splits sum.splits pyval.splits)

lemma influence_step_shape:
  assumes "influence_step sim i p (st, r) = Inr (st', r')"
  shows "\<exists>c. 0 \<le> c \<and> c \<le> 1 \<and> st' = st[i := (st ! i)\<lparr>current_opinion := c\<rparr>]"
proof -
  from assms obtain c where "st' = st[i := (st ! i)\<lparr>current_opinion := max 0 (min 1 c)\<rparr>]"
    by (rule influence_step_effect)
  moreover have "0 \<le> max 0 (min 1 c)" "max 0 (min 1 c) \<le> 1" by simp_all
  ultimately show ?thesis by blast
qed

lemma opinions_bounded_update:
  "opinions_bounded st \<Longrightarrow> 0 \<le> c \<Longrightarrow> c \<le> 1 \<Longrightarrow> opinions_bounded (st[i := (st ! i)\<lparr>current_opinion := c\<rparr>])"
  unfolding opinions_bounded_def
  by (auto dest!: set_update_subset_insert[THEN subsetD])

lemma influence_step_bounded:
  "influence_step sim i p (st, r) = Inr (st', r') \<Longrightarrow> opinions_bounded st \<Longrightarrow> opinions_bounded st'"
  using influence_step_shape opinions_bounded_update by blast

lemma apply_influencers_bounded:
  "apply_influencers sim i ps s = Inr s' \<Longrightarrow> opinions_bounded (fst s) \<Longrightarrow> opinions_bounded (fst s')"
proof (induction ps arbitrary: s)
  case Nil
  then show ?case by simp
next
  case (Cons p ps)
  from Cons.prems(1) obtain s1 where s1: "influence_step sim i p s = Inr s1"
    and rest: "apply_influencers sim i ps s1 = Inr s'"
    by (auto split: sum.splits)
  from s1 Cons.prems(2) have "opinions_bounded (fst s1)"
    using influence_step_bounded[of sim i p "fst s" "snd s" "fst s1" "snd s1"] by simp
  with rest show ?case by (rule Cons.IH)
qed

lemma propagate_bounded:
  "propagate sim i rs st = Inr (st', rs') \<Longrightarrow> opinions_bounded st \<Longrightarrow> opinions_bounded st'"
proof (induction rs arbitrary: i st st' rs')
  case Nil
  then show ?case by simp
next
  case (Cons r rs)
  from Cons.prems(1) obtain ps st1 r1 st2 rs2 where
    "apply_influencers sim i ps (st, r) = Inr (st1, r1)"
    and rest: "propagate sim (Suc i) rs st1 = Inr (st2, rs2)" and eq: "st' = st2"
    by (auto split: sum.splits)
  then have "opinions_bounded st1"
    using apply_influencers_bounded[of sim i ps "(st, r)" "(st1, r1)"] Cons.prems(2) by simp
  with rest eq show ?case using Cons.IH by blast
qed

lemma gather_process_bounded:
  "opinions_bounded (fst (fst (gather_process backend feature st b)))"
proof (induction st arbitrary: b)
  case Nil
  then show ?case by (simp add: opinions_bounded_def)
next
  case (Cons a as)
  show ?case
    using Cons.IH process_feature_opinion[of backend b feature a]
    by (simp add: opinions_bounded_def split_beta Let_def)
qed

lemma run_features_bounded:
  "run_features sim backend fs st b = Inr ((st', acts), b') \<Longrightarrow> opinions_bounded st \<Longrightarrow> opinions_bounded st'"
proof (induction fs arbitrary: st b st' acts b')
  case Nil
  then show ?case by simp
next
  case (Cons f fs)
  obtain st1 rs b1 where g: "gather_process backend f st b = ((st1, rs), b1)"
    by (metis prod.exhaust)
  have b1: "opinions_bounded st1"
    using gather_process_bounded[of backend f st b] g by simp
  from Cons.prems(1) g obtain st2 fi st3 rest b2 where
    p: "propagate sim 0 rs st1 = Inr (st2, fi)"
    and r: "run_features sim backend fs st2 b1 = Inr ((st3, rest), b2)" and eq: "st' = st3"
    by (auto split: sum.splits)
  from p b1 have "opinions_bounded st2" by (rule propagate_bounded)
  with r eq show ?case using Cons.IH by blast
qed

lemma demo_run: "\<exists>st2 acts b2. run_features demo_sim demo_backend [demo_feature] demo_agents () = Inr ((st2, acts), b2)"
  by (simp add: demo_sim_def demo_backend_def demo_feature_def demo_agents_def demo_genome_def
      Agent_init_def process_feature_def make_context_def apply_analysis_def Let_def
      get_influencers_def predecessors_def influence_step_def calculate_influence_flow_def
      dict_iadd_def dict_get_str_def)

lemma demo_step: "\<exists>st' r'. influence_step demo_sim 0 ''i1'' (demo_agents, [(''influence_impact'', Num 0)]) = Inr (st', r')"
  by (simp add: demo_sim_def demo_agents_def demo_genome_def
      Agent_init_def Let_def influence_step_def calculate_influence_flow_def
      dict_iadd_def)

text \<open>
  C1: every update of an opinion leaves it in the unit interval.  The update that
  \<^verbatim>\<open>process_feature\<close> applies after the analysis does so for any backend and any opinion
  shift; each step of the influence propagation does so for any edge weight; and the
  loop over the features of a round keeps every opinion of the population bounded.
\<close>

theorem opinion_clamped_after_every_update:
  "(0 \<le> current_opinion (fst (fst (process_feature backend b feature a)))
      \<and> current_opinion (fst (fst (process_feature backend b feature a))) \<le> 1)
   \<and> (i < length st \<longrightarrow> influence_step sim i p (st, r) = Inr (st', r')
        \<longrightarrow> 0 \<le> current_opinion (st' ! i) \<and> current_opinion (st' ! i) \<le> 1)
   \<and> (opinions_bounded st \<longrightarrow> run_features sim backend fs st b = Inr ((st2, acts), b2)
        \<longrightarrow> opinions_bounded st2)"
proof (intro conjI impI)
  assume i: "i < length st" and s: "influence_step sim i p (st, r) = Inr (st', r')"
  from influence_step_shape[OF s] obtain c where
    c: "0 \<le> c" "c \<le> 1" "st' = st[i := (st ! i)\<lparr>current_opinion := c\<rparr>]" by blast
  with i show "0 \<le> current_opinion (st' ! i)" "current_opinion (st' ! i) \<le> 1" by simp_all
next
  assume "opinions_bounded st" "run_features sim backend fs st b = Inr ((st2, acts), b2)"
  then show "opinions_bounded st2" by (rule run_features_bounded[rotated])
qed (simp_all add: process_feature_opinion)

theorem opinion_clamped_after_every_update_witness:
  "\<exists>st' r' st2 acts b2.
     0 < length demo_agents
     \<and> influence_step demo_sim 0 ''i1'' (demo_agents, [(''influence_impact'', Num 0)]) = Inr (st', r')
     \<and> opinions_bounded demo_agents
     \<and> run_features demo_sim demo_backend [demo_feature] demo_agents () = Inr ((st2, acts), b2)
     \<and> 0 \<le> current_opinion (st' ! 0) \<and> current_opinion (st' ! 0) \<le> 1 \<and> opinions_bounded st2"
proof -
  obtain st' r' where s: "influence_step demo_sim 0 ''i1'' (demo_agents, [(''influence_impact'', Num 0)]) = Inr (st', r')"
    using demo_step by blast
  obtain st2 acts b2 where r: "run_features demo_sim demo_backend [demo_feature] demo_agents () = Inr ((st2, acts), b2)"
    using demo_run by blast
  have l: "0 < length demo_agents" by (simp add: demo_agents_def)
  have ob: "opinions_bounded demo_agents"
    by (simp add: opinions_bounded_def demo_agents_def Agent_init_def)
  from opinion_clamped_after_every_update[of demo_backend "()" demo_feature "hd demo_agents" 0 demo_agents
      demo_sim "''i1''" "[(''influence_impact'', Num 0)]" st' r' "[demo_feature]" st2 acts b2] l s ob r
  show ?thesis by blast
qed

section \<open>The propagation pass refines the rule of the specification\<close>

lemma spec_clamp_max_min: "spec_clamp x 0 1 = max 0 (min 1 x)"
  by (simp add: spec_clamp_def max_def min_def)

lemma spec_chain_cong:
  "(\<And>P. P \<in> set Ps \<Longrightarrow> f P = g P) \<Longrightarrow> spec_chain f w x Ps = spec_chain g w x Ps"
  by (induction Ps arbitrary: x) simp_all

lemma spec_impact_cong:
  "(\<And>P. P \<in> set Ps \<Longrightarrow> f P = g P) \<Longrightarrow> spec_impact f w x Ps = spec_impact g w x Ps"
  by (induction Ps arbitrary: x) simp_all

lemma map_of_dict_set: "map_of (dict_set d k v) = (map_of d)(k \<mapsto> v)"
  by (induction d k v rule: dict_set.induct) auto

lemma influence_step_spec:
  assumes "influence_step sim i P (st, r) = Inr (st', r')"
  obtains x where "map_of r ''influence_impact'' = Some (Num x)"
    and "st' = st[i := (st ! i)\<lparr>current_opinion :=
            spec_clamp (current_opinion (st ! i)
              + spec_delta (opinion_of sim st P) (current_opinion (st ! i))
                  (weight_into sim (name (st ! i)) P)) 0 1\<rparr>]"
    and "map_of r' = (map_of r)(''influence_impact'' \<mapsto>
            Num (x + \<bar>spec_delta (opinion_of sim st P) (current_opinion (st ! i))
                  (weight_into sim (name (st ! i)) P)\<bar>))"
proof -
  from assms obtain j x where j: "map_of (sim_agents sim) P = Some j"
    and x: "map_of r ''influence_impact'' = Some (Num x)"
    and st': "st' = st[i := (st ! i)\<lparr>current_opinion := max 0 (min 1 (current_opinion (st ! i)
            + (current_opinion (st ! j) - current_opinion (st ! i))
              * calculate_influence_flow (influence_graph sim) P (name (st ! i)) * 0.1))\<rparr>]"
    and r': "r' = dict_set r ''influence_impact''
            (Num (x + \<bar>(current_opinion (st ! j) - current_opinion (st ! i))
              * calculate_influence_flow (influence_graph sim) P (name (st ! i)) * 0.1\<bar>))"
    by (rule influence_step_effect)
  have d: "spec_delta (opinion_of sim st P) (current_opinion (st ! i)) (weight_into sim (name (st ! i)) P)
      = (current_opinion (st ! j) - current_opinion (st ! i))
              * calculate_influence_flow (influence_graph sim) P (name (st ! i)) * 0.1"
    using j by (simp add: spec_delta_def opinion_of_def weight_into_def)
  show ?thesis
  proof (rule that[OF x])
    show "st' = st[i := (st ! i)\<lparr>current_opinion :=
            spec_clamp (current_opinion (st ! i)
              + spec_delta (opinion_of sim st P) (current_opinion (st ! i))
                  (weight_into sim (name (st ! i)) P)) 0 1\<rparr>]"
      unfolding d spec_clamp_max_min using st' .
    show "map_of r' = (map_of r)(''influence_impact'' \<mapsto>
            Num (x + \<bar>spec_delta (opinion_of sim st P) (current_opinion (st ! i))
                  (weight_into sim (name (st ! i)) P)\<bar>))"
      unfolding d r' by (rule map_of_dict_set)
  qed
qed

lemma opinion_of_update_other:
  "map_of (sim_agents sim) P \<noteq> Some i \<Longrightarrow> opinion_of sim (st[i := a]) P = opinion_of sim st P"
  by (auto simp: opinion_of_def split: option.splits)


lemma apply_influencers_Cons:
  assumes "apply_influencers sim i (P # ps) (st, r) = Inr (st', r')"
  obtains st1 r1 where "influence_step sim i P (st, r) = Inr (st1, r1)"
    and "apply_influencers sim i ps (st1, r1) = Inr (st', r')"
proof (cases "influence_step sim i P (st, r)")
  case (Inl e)
  with assms show ?thesis by simp
next
  case (Inr s1)
  with assms that show ?thesis by (cases s1) simp
qed

lemma apply_influencers_store:
  assumes "apply_influencers sim i ps (st, r) = Inr (st', r')" and "i < length st"
    and "\<forall>P \<in> set ps. map_of (sim_agents sim) P \<noteq> Some i"
  shows "st' = st[i := (st ! i)\<lparr>current_opinion :=
            spec_chain (opinion_of sim st) (weight_into sim (name (st ! i)))
              (current_opinion (st ! i)) ps\<rparr>]"
  using assms
proof (induction ps arbitrary: st r)
  case Nil
  then show ?case by simp
next
  case (Cons P ps)
  from Cons.prems(1) obtain st1 r1 where
    step: "influence_step sim i P (st, r) = Inr (st1, r1)"
    and rest: "apply_influencers sim i ps (st1, r1) = Inr (st', r')"
    by (rule apply_influencers_Cons)
  define c where "c = spec_clamp (current_opinion (st ! i)
              + spec_delta (opinion_of sim st P) (current_opinion (st ! i))
                  (weight_into sim (name (st ! i)) P)) 0 1"
  from step have st1: "st1 = st[i := (st ! i)\<lparr>current_opinion := c\<rparr>]"
    unfolding c_def by (rule influence_step_spec)
  have len: "i < length st1" using st1 Cons.prems(2) by simp
  have others: "\<forall>P \<in> set ps. map_of (sim_agents sim) P \<noteq> Some i"
    using Cons.prems(3) by simp
  have same: "opinion_of sim st1 Q = opinion_of sim st Q" if "Q \<in> set ps" for Q
    using others that unfolding st1 by (simp add: opinion_of_update_other)
  have nm: "name (st1 ! i) = name (st ! i)" and op: "current_opinion (st1 ! i) = c"
    using Cons.prems(2) unfolding st1 by simp_all
  have ch: "spec_chain (opinion_of sim st1) (weight_into sim (name (st ! i))) c ps
        = spec_chain (opinion_of sim st) (weight_into sim (name (st ! i))) c ps"
    by (rule spec_chain_cong) (rule same)
  have "st' = st1[i := (st1 ! i)\<lparr>current_opinion :=
            spec_chain (opinion_of sim st1) (weight_into sim (name (st1 ! i)))
              (current_opinion (st1 ! i)) ps\<rparr>]"
    using Cons.IH[OF rest len others] .
  then have "st' = st1[i := (st1 ! i)\<lparr>current_opinion :=
            spec_chain (opinion_of sim st) (weight_into sim (name (st ! i))) c ps\<rparr>]"
    unfolding nm op ch .
  then show ?case
    unfolding st1 using Cons.prems(2) by (simp add: c_def)
qed

lemma apply_influencers_impact:
  assumes "apply_influencers sim i ps (st, r) = Inr (st', r')" and "i < length st"
    and "\<forall>P \<in> set ps. map_of (sim_agents sim) P \<noteq> Some i"
    and "map_of r ''influence_impact'' = Some (Num x)"
  shows "map_of r' = (map_of r)(''influence_impact'' \<mapsto>
           Num (x + spec_impact (opinion_of sim st) (weight_into sim (name (st ! i)))
              (current_opinion (st ! i)) ps))"
  using assms
proof (induction ps arbitrary: st r x)
  case Nil
  then have "r' = r" by simp
  with Nil.prems(4) show ?case by (simp add: fun_upd_idem)
next
  case (Cons P ps)
  from Cons.prems(1) obtain st1 r1 where
    step: "influence_step sim i P (st, r) = Inr (st1, r1)"
    and rest: "apply_influencers sim i ps (st1, r1) = Inr (st', r')"
    by (rule apply_influencers_Cons)
  define d where "d = spec_delta (opinion_of sim st P) (current_opinion (st ! i))
                  (weight_into sim (name (st ! i)) P)"
  define c where "c = spec_clamp (current_opinion (st ! i) + d) 0 1"
  from step obtain x' where x': "map_of r ''influence_impact'' = Some (Num x')"
    and st1: "st1 = st[i := (st ! i)\<lparr>current_opinion := c\<rparr>]"
    and r1': "map_of r1 = (map_of r)(''influence_impact'' \<mapsto> Num (x' + \<bar>d\<bar>))"
    unfolding c_def d_def by (rule influence_step_spec)
  from x' Cons.prems(4) have "x' = x" by simp
  with r1' have r1: "map_of r1 = (map_of r)(''influence_impact'' \<mapsto> Num (x + \<bar>d\<bar>))"
    by simp
  have len: "i < length st1" using st1 Cons.prems(2) by simp
  have others: "\<forall>P \<in> set ps. map_of (sim_agents sim) P \<noteq> Some i"
    using Cons.prems(3) by simp
  have same: "opinion_of sim st1 Q = opinion_of sim st Q" if "Q \<in> set ps" for Q
    using others that unfolding st1 by (simp add: opinion_of_update_other)
  have nm: "name (st1 ! i) = name (st ! i)" and op: "current_opinion (st1 ! i) = c"
    using Cons.prems(2) unfolding st1 by simp_all
  have ch: "spec_impact (opinion_of sim st1) (weight_into sim (name (st ! i))) c ps
        = spec_impact (opinion_of sim st) (weight_into sim (name (st ! i))) c ps"
    by (rule spec_impact_cong) (rule same)
  have r1x: "map_of r1 ''influence_impact'' = Some (Num (x + \<bar>d\<bar>))" using r1 by simp
  have "map_of r' = (map_of r1)(''influence_impact'' \<mapsto>
           Num (x + \<bar>d\<bar> + spec_impact (opinion_of sim st1) (weight_into sim (name (st1 ! i)))
              (current_opinion (st1 ! i)) ps))"
    using Cons.IH[OF rest len others r1x] .
  then have "map_of r' = (map_of r1)(''influence_impact'' \<mapsto>
           Num (x + \<bar>d\<bar> + spec_impact (opinion_of sim st) (weight_into sim (name (st ! i))) c ps))"
    unfolding nm op ch .
  then show ?case
    unfolding r1 by (simp add: c_def d_def add.assoc)
qed

lemma apply_influencers_shape:
  assumes "apply_influencers sim i ps (st, r) = Inr (st', r')"
  shows "\<exists>c. st' = st[i := (st ! i)\<lparr>current_opinion := c\<rparr>]"
  using assms
proof (induction ps arbitrary: st r)
  case Nil
  then have "st' = st[i := (st ! i)\<lparr>current_opinion := current_opinion (st ! i)\<rparr>]" by simp
  then show ?case ..
next
  case (Cons P ps)
  from Cons.prems obtain st1 r1 where
    step: "influence_step sim i P (st, r) = Inr (st1, r1)"
    and rest: "apply_influencers sim i ps (st1, r1) = Inr (st', r')"
    by (rule apply_influencers_Cons)
  from step obtain c1 where st1: "st1 = st[i := (st ! i)\<lparr>current_opinion := c1\<rparr>]"
    by (rule influence_step_effect)
  from Cons.IH[OF rest] obtain c2 where st': "st' = st1[i := (st1 ! i)\<lparr>current_opinion := c2\<rparr>]" ..
  have "st' = st[i := (st ! i)\<lparr>current_opinion := c2\<rparr>]"
  proof (cases "i < length st")
    case True
    then show ?thesis unfolding st' st1 by simp
  next
    case False
    then show ?thesis unfolding st' st1 by (simp add: list_update_beyond)
  qed
  then show ?case ..
qed

lemma propagate_Cons:
  assumes "propagate sim k (r # rs) st = Inr (st', rs')"
  obtains ps st1 r1 rs2 where "get_influencers (influence_graph sim) (name (st ! k)) = Inr ps"
    and "apply_influencers sim k ps (st, r) = Inr (st1, r1)"
    and "propagate sim (Suc k) rs st1 = Inr (st', rs2)" and "rs' = r1 # rs2"
proof (cases "get_influencers (influence_graph sim) (name (st ! k))")
  case (Inl e)
  with assms show ?thesis by simp
next
  case ps: (Inr ps)
  show ?thesis
  proof (cases "apply_influencers sim k ps (st, r)")
    case (Inl e)
    with assms ps show ?thesis by simp
  next
    case s1: (Inr s1)
    obtain st1 r1 where s1eq: "s1 = (st1, r1)" by (cases s1)
    show ?thesis
    proof (cases "propagate sim (Suc k) rs st1")
      case (Inl e)
      with assms ps s1 s1eq show ?thesis by simp
    next
      case s2: (Inr s2)
      obtain st2 rs2 where "s2 = (st2, rs2)" by (cases s2)
      with assms ps s1 s1eq s2 that show ?thesis by simp
    qed
  qed
qed

lemma propagate_frame:
  assumes "propagate sim k rs st = Inr (st', rs')"
  shows "length st' = length st \<and> map name st' = map name st
         \<and> (\<forall>j<k. st' ! j = st ! j) \<and> length rs' = length rs"
  using assms
proof (induction rs arbitrary: k st rs')
  case Nil
  then show ?case by simp
next
  case (Cons r rs)
  from Cons.prems obtain ps st1 r1 rs2 where
    ai: "apply_influencers sim k ps (st, r) = Inr (st1, r1)"
    and rest: "propagate sim (Suc k) rs st1 = Inr (st', rs2)" and rs': "rs' = r1 # rs2"
    by (rule propagate_Cons)
  from apply_influencers_shape[OF ai] obtain c where
    st1: "st1 = st[k := (st ! k)\<lparr>current_opinion := c\<rparr>]" ..
  have l1: "length st1 = length st" unfolding st1 by simp
  have n1: "map name st1 = map name st"
  proof (cases "k < length st")
    case True
    then show ?thesis
      unfolding st1 by (intro nth_equalityI) (simp_all add: nth_list_update)
  next
    case False
    then show ?thesis unfolding st1 by (simp add: list_update_beyond)
  qed
  have f1: "\<forall>j<k. st1 ! j = st ! j" unfolding st1 by simp
  from Cons.IH[OF rest] have ih: "length st' = length st1" "map name st' = map name st1"
    "\<forall>j<Suc k. st' ! j = st1 ! j" "length rs2 = length rs" by simp_all
  show ?case using ih l1 n1 f1 rs' by simp
qed

lemma propagate_spec:
  assumes "propagate sim k rs st = Inr (st', rs')"
    and "k + length rs \<le> length st" and "n < length rs"
    and "get_influencers (influence_graph sim) (name (st ! (k + n))) = Inr ps"
    and "\<forall>P \<in> set ps. map_of (sim_agents sim) P \<noteq> Some (k + n)"
  shows "current_opinion (st' ! (k + n)) =
           spec_chain (opinion_of sim (take (k + n) st' @ drop (k + n) st))
             (weight_into sim (name (st ! (k + n)))) (current_opinion (st ! (k + n))) ps
         \<and> (\<forall>x. map_of (rs ! n) ''influence_impact'' = Some (Num x) \<longrightarrow>
              map_of (rs' ! n) = (map_of (rs ! n))(''influence_impact'' \<mapsto>
                Num (x + spec_impact (opinion_of sim (take (k + n) st' @ drop (k + n) st))
                  (weight_into sim (name (st ! (k + n)))) (current_opinion (st ! (k + n))) ps)))"
  using assms
proof (induction rs arbitrary: k st rs' n)
  case Nil
  then show ?case by simp
next
  case (Cons r rs)
  from Cons.prems(1) obtain ps0 st1 r1 rs2 where
    gi: "get_influencers (influence_graph sim) (name (st ! k)) = Inr ps0"
    and ai: "apply_influencers sim k ps0 (st, r) = Inr (st1, r1)"
    and rest: "propagate sim (Suc k) rs st1 = Inr (st', rs2)" and rs': "rs' = r1 # rs2"
    by (rule propagate_Cons)
  have klen: "k < length st" using Cons.prems(2) by simp
  from apply_influencers_shape[OF ai] obtain c where
    st1: "st1 = st[k := (st ! k)\<lparr>current_opinion := c\<rparr>]" ..
  have l1: "length st1 = length st" unfolding st1 by simp
  from propagate_frame[OF rest] have l': "length st' = length st1"
    and fr: "\<forall>j<Suc k. st' ! j = st1 ! j" by simp_all
  show ?case
  proof (cases n)
    case 0
    with gi Cons.prems(4) have ps: "ps0 = ps" by simp
    have noself: "\<forall>P \<in> set ps. map_of (sim_agents sim) P \<noteq> Some k"
      using Cons.prems(5) 0 by simp
    have tk: "take k st' = take k st"
    proof (rule nth_take_lemma)
      show "k \<le> length st'" using l' l1 klen by simp
      show "k \<le> length st" using klen by simp
      fix j show "j < k \<longrightarrow> st' ! j = st ! j" using fr unfolding st1 by simp
    qed
    have view: "take k st' @ drop k st = st" unfolding tk by simp
    have "st1 = st[k := (st ! k)\<lparr>current_opinion :=
            spec_chain (opinion_of sim st) (weight_into sim (name (st ! k)))
              (current_opinion (st ! k)) ps\<rparr>]"
      using apply_influencers_store[OF ai[unfolded ps] klen noself] .
    then have "current_opinion (st1 ! k) =
            spec_chain (opinion_of sim st) (weight_into sim (name (st ! k)))
              (current_opinion (st ! k)) ps"
      using klen by simp
    moreover have "st' ! k = st1 ! k" using fr by simp
    moreover have "map_of r1 = (map_of r)(''influence_impact'' \<mapsto>
           Num (x + spec_impact (opinion_of sim st) (weight_into sim (name (st ! k)))
              (current_opinion (st ! k)) ps))"
      if "map_of r ''influence_impact'' = Some (Num x)" for x
      using apply_influencers_impact[OF ai[unfolded ps] klen noself that] .
    ultimately show ?thesis using 0 rs' view by simp
  next
    case (Suc m)
    have idx: "k + n = Suc k + m" using Suc by simp
    have m: "m < length rs" using Cons.prems(3) Suc by simp
    have le: "Suc k + length rs \<le> length st1" using Cons.prems(2) l1 by simp
    have ne: "k \<noteq> Suc k + m" by simp
    have same: "st1 ! (Suc k + m) = st ! (Suc k + m)" unfolding st1 using ne by simp
    have dr: "drop (Suc k + m) st1 = drop (Suc k + m) st"
      unfolding st1 by (simp add: drop_update_cancel)
    have gi': "get_influencers (influence_graph sim) (name (st1 ! (Suc k + m))) = Inr ps"
      using Cons.prems(4) unfolding same idx .
    have noself: "\<forall>P \<in> set ps. map_of (sim_agents sim) P \<noteq> Some (Suc k + m)"
      using Cons.prems(5) unfolding idx .
    from Cons.IH[OF rest le m gi' noself]
    show ?thesis unfolding idx same dr using Suc rs' by simp
  qed
qed

lemmas demo_defs = demo_sim_def demo_backend_def demo_feature_def demo_agents_def demo_genome_def
      demo_gather_def Agent_init_def process_feature_def make_context_def apply_analysis_def Let_def
      get_influencers_def predecessors_def influence_step_def calculate_influence_flow_def
      dict_iadd_def dict_get_str_def

lemma gather_process_nth:
  assumes "gather_process backend feature st0 b = ((st, rs), b')" and "i < length st0"
  shows "\<exists>bi. st ! i = fst (fst (process_feature backend bi feature (st0 ! i)))
            \<and> rs ! i = snd (fst (process_feature backend bi feature (st0 ! i)))"
  using assms
proof (induction st0 arbitrary: b st rs i b')
  case Nil
  then show ?case by simp
next
  case (Cons a as)
  obtain a' r b1 where pf: "process_feature backend b feature a = ((a', r), b1)"
    by (metis prod.exhaust)
  obtain as' rs2 b2 where g: "gather_process backend feature as b1 = ((as', rs2), b2)"
    by (metis prod.exhaust)
  from Cons.prems(1) pf g have st: "st = a' # as'" and rs: "rs = r # rs2" by simp_all
  show ?case
  proof (cases i)
    case 0
    with pf st rs have "st ! i = fst (fst (process_feature backend b feature ((a # as) ! i)))
            \<and> rs ! i = snd (fst (process_feature backend b feature ((a # as) ! i)))" by simp
    then show ?thesis ..
  next
    case (Suc m)
    with Cons.prems(2) have "m < length as" by simp
    from Cons.IH[OF g this] show ?thesis using Suc st rs by simp
  qed
qed

lemma gather_process_length:
  "gather_process backend feature st0 b = ((st, rs), b') \<Longrightarrow> length st = length st0 \<and> length rs = length st0"
proof (induction st0 arbitrary: b st rs b')
  case Nil
  then show ?case by simp
next
  case (Cons a as)
  obtain a' r b1 where pf: "process_feature backend b feature a = ((a', r), b1)"
    by (metis prod.exhaust)
  obtain as' rs2 b2 where g: "gather_process backend feature as b1 = ((as', rs2), b2)"
    by (metis prod.exhaust)
  from Cons.prems(1) pf g have st: "st = a' # as'" and rs: "rs = r # rs2" by simp_all
  from Cons.IH[OF g] show ?case using st rs by simp
qed

lemma process_feature_record:
  "map_of (snd (fst (process_feature backend b feature a))) ''influence_impact''
     = Some (Num (influence_impact (fst (backend b feature (make_context a)))))"
  by (simp add: process_feature_def apply_analysis_def Let_def split_beta)

lemma process_feature_name:
  "name (fst (fst (process_feature backend b feature a))) = name a"
  by (simp add: process_feature_def apply_analysis_def Let_def split_beta)

text \<open>
  C2: after the propagation pass over the population, the opinion of the agent at position
  \<open>i\<close> is the chain of the specification over its predecessors, in the order the graph
  lists them, started from the agent's opinion after the analysis.  Each predecessor's
  opinion is read from the store in which the agents before \<open>i\<close> already have their
  final opinions and the others the opinions they had after the analysis: the pass runs
  in population order, and each delta is computed against the opinion left by the
  previous predecessor.
\<close>

theorem propagation_chained_in_population_order:
  assumes "propagate sim 0 rs st = Inr (st', rs')" and "length rs = length st"
    and "i < length st"
    and "get_influencers (influence_graph sim) (name (st ! i)) = Inr ps"
    and "\<forall>P \<in> set ps. map_of (sim_agents sim) P \<noteq> Some i"
  shows "current_opinion (st' ! i) =
           spec_chain (opinion_of sim (take i st' @ drop i st))
             (weight_into sim (name (st ! i))) (current_opinion (st ! i)) ps"
proof -
  have "0 + length rs \<le> length st" "i < length rs" using assms(2,3) by simp_all
  from propagate_spec[OF assms(1) this, of ps] assms(4,5) show ?thesis by simp
qed

lemma demo_gather_eval:
  "demo_gather =
     (([(Agent_init (demo_genome CUSTOMER (1/2)) ''c1'')
          \<lparr>genome := (demo_genome CUSTOMER (1/2))\<lparr>attention_tokens := 85\<rparr>,
            memory := [''fine''], current_opinion := 2/5\<rparr>,
        (Agent_init (demo_genome INFLUENCER (4/5)) ''i1'')
          \<lparr>genome := (demo_genome INFLUENCER (4/5))\<lparr>attention_tokens := 85\<rparr>,
            memory := [''fine''], current_opinion := 4/5\<rparr>,
        (Agent_init (demo_genome INFLUENCER 1) ''i2'')
          \<lparr>genome := (demo_genome INFLUENCER 1)\<lparr>attention_tokens := 85\<rparr>,
            memory := [''fine''], current_opinion := 4/5\<rparr>],
       snd (fst demo_gather)), ())"
  by (simp add: demo_defs)

lemma demo_propagate: "\<exists>st' rs'. propagate demo_sim 0 (snd (fst demo_gather)) (fst (fst demo_gather)) = Inr (st', rs')"
  by (simp add: demo_defs)

theorem propagation_chained_in_population_order_witness:
  "\<exists>st' rs'. propagate demo_sim 0 (snd (fst demo_gather)) (fst (fst demo_gather)) = Inr (st', rs')
      \<and> length (snd (fst demo_gather)) = length (fst (fst demo_gather))
      \<and> get_influencers (influence_graph demo_sim) (name (fst (fst demo_gather) ! 0))
            = Inr [''i1'', ''i2'']
      \<and> current_opinion (st' ! 0) = 293 / 625"
proof -
  obtain st' rs' where
    p: "propagate demo_sim 0 (snd (fst demo_gather)) (fst (fst demo_gather)) = Inr (st', rs')"
    using demo_propagate by blast
  have l: "length (snd (fst demo_gather)) = length (fst (fst demo_gather))"
    by (simp add: demo_defs)
  have i: "0 < length (fst (fst demo_gather))" by (simp add: demo_defs)
  have g: "get_influencers (influence_graph demo_sim) (name (fst (fst demo_gather) ! 0))
            = Inr [''i1'', ''i2'']"
    by (simp add: demo_defs)
  have n: "\<forall>P \<in> set [''i1'', ''i2'']. map_of (sim_agents demo_sim) P \<noteq> Some 0"
    by (simp add: demo_sim_def)
  have "current_opinion (st' ! 0) =
           spec_chain (opinion_of demo_sim (take 0 st' @ drop 0 (fst (fst demo_gather))))
             (weight_into demo_sim (name (fst (fst demo_gather) ! 0)))
             (current_opinion (fst (fst demo_gather) ! 0)) [''i1'', ''i2'']"
    using propagation_chained_in_population_order[OF p l i g n] .
  also have "\<dots> = 293 / 625"
    by (simp add: opinion_of_def weight_into_def spec_delta_def spec_clamp_def demo_defs)
  finally show ?thesis using p l g by blast
qed

text \<open>
  C3, as the code has it: the influence-impact field of the record of agent \<open>i\<close> is the
  influence impact that the analysis backend reported for that agent and feature, plus
  the sum of the absolute deltas of the propagation into that agent.
\<close>

theorem influence_impact_starts_from_backend_value:
  assumes "gather_process backend feature st0 b = ((st, rs), b1)"
    and "propagate sim 0 rs st = Inr (st', rs')"
    and "i < length st0"
    and "get_influencers (influence_graph sim) (name (st0 ! i)) = Inr ps"
    and "\<forall>P \<in> set ps. map_of (sim_agents sim) P \<noteq> Some i"
  shows "\<exists>bi. map_of (rs' ! i) ''influence_impact'' =
           Some (Num (influence_impact (fst (backend bi feature (make_context (st0 ! i))))
                      + spec_impact (opinion_of sim (take i st' @ drop i st))
                          (weight_into sim (name (st0 ! i))) (current_opinion (st ! i)) ps))"
proof -
  from gather_process_length[OF assms(1)] have len: "length st = length st0" "length rs = length st0"
    by simp_all
  from gather_process_nth[OF assms(1,3)] obtain bi where
    sti: "st ! i = fst (fst (process_feature backend bi feature (st0 ! i)))"
    and rsi: "rs ! i = snd (fst (process_feature backend bi feature (st0 ! i)))" by blast
  have nm: "name (st ! i) = name (st0 ! i)" unfolding sti by (rule process_feature_name)
  have x: "map_of (rs ! i) ''influence_impact''
       = Some (Num (influence_impact (fst (backend bi feature (make_context (st0 ! i))))))"
    unfolding rsi by (rule process_feature_record)
  have le: "0 + length rs \<le> length st" and ir: "i < length rs" using len assms(3) by simp_all
  have gi: "get_influencers (influence_graph sim) (name (st ! (0 + i))) = Inr ps"
    using assms(4) nm by simp
  have ns: "\<forall>P \<in> set ps. map_of (sim_agents sim) P \<noteq> Some (0 + i)" using assms(5) by simp
  from propagate_spec[OF assms(2) le ir gi ns] x nm
  have "map_of (rs' ! i) ''influence_impact'' =
           Some (Num (influence_impact (fst (backend bi feature (make_context (st0 ! i))))
                      + spec_impact (opinion_of sim (take i st' @ drop i st))
                          (weight_into sim (name (st0 ! i))) (current_opinion (st ! i)) ps))"
    by simp
  then show ?thesis ..
qed

text \<open>
  C3 as stated fails: in the example arena the agent \<^verbatim>\<open>i1\<close> has no predecessor, and
  its record carries the influence impact of the analysis, 4/5, not 0.
\<close>

theorem influence_impact_counterexample:
  "get_influencers (influence_graph demo_sim) ''i1'' = Inr []
   \<and> (case run_features demo_sim demo_backend [demo_feature] demo_agents () of
        Inl e \<Rightarrow> False
      | Inr ((st, acts), b) \<Rightarrow>
          map_of (acts ! 1) ''agent_name'' = Some (Str ''i1'')
          \<and> map_of (acts ! 1) ''influence_impact'' = Some (Num (4 / 5))
          \<and> map_of (acts ! 1) ''influence_impact'' \<noteq> Some (Num 0))"
  by (simp add: demo_defs)

theorem influence_impact_starts_from_backend_value_witness:
  "\<exists>st' rs'. propagate demo_sim 0 (snd (fst demo_gather)) (fst (fst demo_gather)) = Inr (st', rs')
      \<and> get_influencers (influence_graph demo_sim) (name (demo_agents ! 0)) = Inr [''i1'', ''i2'']
      \<and> map_of (rs' ! 0) ''influence_impact'' = Some (Num (711 / 1250))"
proof -
  obtain st' rs' where
    p: "propagate demo_sim 0 (snd (fst demo_gather)) (fst (fst demo_gather)) = Inr (st', rs')"
    using demo_propagate by blast
  have ga: "gather_process demo_backend demo_feature demo_agents ()
              = ((fst (fst demo_gather), snd (fst demo_gather)), ())"
    unfolding demo_gather_def by (cases "gather_process demo_backend demo_feature demo_agents ()") simp
  have i: "0 < length demo_agents" by (simp add: demo_agents_def)
  have g: "get_influencers (influence_graph demo_sim) (name (demo_agents ! 0))
            = Inr [''i1'', ''i2'']"
    by (simp add: demo_defs)
  have n: "\<forall>P \<in> set [''i1'', ''i2'']. map_of (sim_agents demo_sim) P \<noteq> Some 0"
    by (simp add: demo_sim_def)
  from influence_impact_starts_from_backend_value[OF ga p i g n] obtain bi where
    "map_of (rs' ! 0) ''influence_impact'' =
       Some (Num (influence_impact (fst (demo_backend bi demo_feature (make_context (demo_agents ! 0))))
                  + spec_impact (opinion_of demo_sim (take 0 st' @ drop 0 (fst (fst demo_gather))))
                      (weight_into demo_sim (name (demo_agents ! 0)))
                      (current_opinion (fst (fst demo_gather) ! 0)) [''i1'', ''i2'']))" ..
  also have "influence_impact (fst (demo_backend bi demo_feature (make_context (demo_agents ! 0))))
                  + spec_impact (opinion_of demo_sim (take 0 st' @ drop 0 (fst (fst demo_gather))))
                      (weight_into demo_sim (name (demo_agents ! 0)))
                      (current_opinion (fst (fst demo_gather) ! 0)) [''i1'', ''i2'']
             = 711 / 1250"
    by (simp add: opinion_of_def weight_into_def spec_delta_def spec_clamp_def demo_defs)
  finally show ?thesis using p g by blast
qed

section \<open>The adoption score\<close>

lemma weighted_sum_bounds:
  assumes "\<forall>a \<in> set cs. 0 \<le> current_opinion a \<and> current_opinion a \<le> 1"
    and "\<forall>a \<in> set cs. 0 \<le> influence_score (genome a)"
  shows "0 \<le> (\<Sum>a\<leftarrow>cs. current_opinion a * influence_score (genome a))
       \<and> (\<Sum>a\<leftarrow>cs. current_opinion a * influence_score (genome a))
            \<le> (\<Sum>a\<leftarrow>cs. influence_score (genome a))"
  using assms
proof (induction cs)
  case Nil
  then show ?case by simp
next
  case (Cons a cs)
  have a: "0 \<le> current_opinion a" "current_opinion a \<le> 1" "0 \<le> influence_score (genome a)"
    using Cons.prems by simp_all
  then have "0 \<le> current_opinion a * influence_score (genome a)"
    and "current_opinion a * influence_score (genome a) \<le> influence_score (genome a)"
    by (simp_all add: mult_left_le_one_le)
  moreover from Cons have "0 \<le> (\<Sum>a\<leftarrow>cs. current_opinion a * influence_score (genome a))
       \<and> (\<Sum>a\<leftarrow>cs. current_opinion a * influence_score (genome a))
            \<le> (\<Sum>a\<leftarrow>cs. influence_score (genome a))" by simp
  ultimately show ?case by simp
qed

lemma zip_map_sum:
  "(\<Sum>(w, x)\<leftarrow>zip (map f cs) (map g cs). w * x) = (\<Sum>a\<leftarrow>cs. g a * (f a :: real))"
proof (induction cs)
  case Nil
  then show ?case by simp
next
  case (Cons a cs)
  have "f a * g a = g a * f a" by (rule mult.commute)
  with Cons show ?case by simp
qed

text \<open>
  C4: for agents whose opinions lie in the unit interval and whose influence scores are
  not negative (the data model of the agents), the adoption score is the
  influence-score-weighted mean opinion of the customer-role agents times 100 whenever that
  mean is defined (positive total weight), it lies between 0 and 100, and it is 0 when
  there is no customer-role agent.
\<close>

theorem adoption_score_weighted_mean_bounded:
  assumes "\<forall>a \<in> set agents. 0 \<le> current_opinion a \<and> current_opinion a \<le> 1"
    and "\<forall>a \<in> set agents. 0 \<le> influence_score (genome a)"
  shows "(0 < sum_list (map (\<lambda>a. influence_score (genome a)) (customers agents)) \<longrightarrow>
            calculate_adoption_score agents =
              spec_weighted_mean (map (\<lambda>a. influence_score (genome a)) (customers agents))
                                 (map current_opinion (customers agents)) * 100)
       \<and> 0 \<le> calculate_adoption_score agents \<and> calculate_adoption_score agents \<le> 100
       \<and> (customers agents = [] \<longrightarrow> calculate_adoption_score agents = 0)"
proof -
  let ?cs = "customers agents"
  let ?W = "\<Sum>a\<leftarrow>?cs. influence_score (genome a)"
  let ?S = "\<Sum>a\<leftarrow>?cs. current_opinion a * influence_score (genome a)"
  have sub: "set ?cs \<subseteq> set agents" by (auto simp: customers_def)
  have b: "0 \<le> ?S \<and> ?S \<le> ?W"
    by (rule weighted_sum_bounds) (use assms sub in auto)
  have score: "calculate_adoption_score agents =
      (if ?cs = [] then 0 else if 0 < ?W then ?S / ?W * 100 else 0)"
    by (simp add: calculate_adoption_score_def customers_def Let_def)
  have mean: "spec_weighted_mean (map (\<lambda>a. influence_score (genome a)) ?cs) (map current_opinion ?cs)
      = ?S / ?W"
    unfolding spec_weighted_mean_def zip_map_sum ..
  have nonempty: "?cs \<noteq> []" if "0 < ?W" using that by auto
  have c1: "0 < ?W \<longrightarrow> calculate_adoption_score agents =
      spec_weighted_mean (map (\<lambda>a. influence_score (genome a)) ?cs) (map current_opinion ?cs) * 100"
    using nonempty unfolding score mean by simp
  have c2: "0 \<le> calculate_adoption_score agents \<and> calculate_adoption_score agents \<le> 100"
  proof (cases "?cs \<noteq> [] \<and> 0 < ?W")
    case True
    define q where "q = ?S / ?W"
    have "0 \<le> q" "q \<le> 1" unfolding q_def using b True by simp_all
    then have "0 \<le> q * 100" "q * 100 \<le> 100" by simp_all
    moreover have "calculate_adoption_score agents = q * 100"
      unfolding score q_def using True by simp
    ultimately show ?thesis by simp
  next
    case False
    then show ?thesis unfolding score by auto
  qed
  have c3: "?cs = [] \<longrightarrow> calculate_adoption_score agents = 0" unfolding score by simp
  from c1 c2 c3 show ?thesis by blast
qed

theorem adoption_score_weighted_mean_bounded_witness:
  "list_all (\<lambda>a. 0 \<le> current_opinion a \<and> current_opinion a \<le> 1) demo_agents
   \<and> list_all (\<lambda>a. 0 \<le> influence_score (genome a)) demo_agents
   \<and> 0 < sum_list (map (\<lambda>a. influence_score (genome a)) (customers demo_agents))
   \<and> calculate_adoption_score demo_agents = 50"
proof -
  have h1: "\<forall>a \<in> set demo_agents. 0 \<le> current_opinion a \<and> current_opinion a \<le> 1"
    by (simp add: demo_agents_def Agent_init_def)
  have h2: "\<forall>a \<in> set demo_agents. 0 \<le> influence_score (genome a)"
    by (simp add: demo_agents_def Agent_init_def demo_genome_def)
  have w: "0 < sum_list (map (\<lambda>a. influence_score (genome a)) (customers demo_agents))"
    by (simp add: customers_def demo_agents_def Agent_init_def demo_genome_def)
  from adoption_score_weighted_mean_bounded[OF h1 h2] w
  have "calculate_adoption_score demo_agents =
          spec_weighted_mean (map (\<lambda>a. influence_score (genome a)) (customers demo_agents))
                             (map current_opinion (customers demo_agents)) * 100" by blast
  also have "\<dots> = 50"
    by (simp add: spec_weighted_mean_def customers_def demo_agents_def Agent_init_def demo_genome_def)
  finally show ?thesis using h1 h2 w by (simp add: list_all_iff)
qed

section \<open>The engagement density\<close>

lemma apply_analysis_executor_record: "executor_record (snd (apply_analysis analysis a))"
  by (simp add: executor_record_def dict_has_def apply_analysis_def Let_def)

lemma gather_process_executor_record:
  "\<forall>r \<in> set (snd (fst (gather_process backend feature st b))). executor_record r"
proof (induction st arbitrary: b)
  case Nil
  then show ?case by simp
next
  case (Cons a as)
  show ?case
    using Cons.IH apply_analysis_executor_record
    by (simp add: split_beta Let_def process_feature_def)
qed

lemma influence_step_executor_record:
  assumes "influence_step sim i P (st, r) = Inr (st', r')" and "executor_record r"
  shows "executor_record r'"
proof -
  from assms(1) obtain v where "map_of r' = (map_of r)(''influence_impact'' \<mapsto> v)"
    by (rule influence_step_spec)
  with assms(2) show ?thesis by (simp add: executor_record_def dict_has_def)
qed

lemma apply_influencers_executor_record:
  "apply_influencers sim i ps (st, r) = Inr (st', r') \<Longrightarrow> executor_record r \<Longrightarrow> executor_record r'"
proof (induction ps arbitrary: st r)
  case Nil
  then show ?case by simp
next
  case (Cons P ps)
  from Cons.prems(1) obtain st1 r1 where
    step: "influence_step sim i P (st, r) = Inr (st1, r1)"
    and rest: "apply_influencers sim i ps (st1, r1) = Inr (st', r')"
    by (rule apply_influencers_Cons)
  from step Cons.prems(2) have "executor_record r1" by (rule influence_step_executor_record)
  with rest show ?case by (rule Cons.IH)
qed

lemma propagate_executor_record:
  "propagate sim k rs st = Inr (st', rs') \<Longrightarrow> \<forall>r \<in> set rs. executor_record r
     \<Longrightarrow> \<forall>r \<in> set rs'. executor_record r"
proof (induction rs arbitrary: k st rs')
  case Nil
  then show ?case by simp
next
  case (Cons r rs)
  from Cons.prems(1) obtain ps st1 r1 rs2 where
    ai: "apply_influencers sim k ps (st, r) = Inr (st1, r1)"
    and rest: "propagate sim (Suc k) rs st1 = Inr (st', rs2)" and rs': "rs' = r1 # rs2"
    by (rule propagate_Cons)
  have "executor_record r1" using ai Cons.prems(2) by (auto intro: apply_influencers_executor_record)
  moreover have "\<forall>r \<in> set rs2. executor_record r" using Cons.IH[OF rest] Cons.prems(2) by simp
  ultimately show ?case using rs' by simp
qed

lemma run_features_executor_record:
  "run_features sim backend fs st b = Inr ((st', acts), b') \<Longrightarrow> \<forall>r \<in> set acts. executor_record r"
proof (induction fs arbitrary: st b st' acts b')
  case Nil
  then show ?case by simp
next
  case (Cons f fs)
  obtain st1 rs b1 where g: "gather_process backend f st b = ((st1, rs), b1)"
    by (metis prod.exhaust)
  have nt: "\<forall>r \<in> set rs. executor_record r"
    using gather_process_executor_record[of backend f st b] g by simp
  from Cons.prems g obtain st2 fi st3 rest b2 where
    p: "propagate sim 0 rs st1 = Inr (st2, fi)"
    and r: "run_features sim backend fs st2 b1 = Inr ((st3, rest), b2)"
    and eq: "acts = fi @ rest"
    by (auto split: sum.splits)
  from propagate_executor_record[OF p nt] Cons.IH[OF r] eq show ?case by auto
qed

lemma run_single_round_executor_record:
  assumes "run_single_round sim backend fs st round_num b = Inr ((st', rr), b')"
  shows "\<forall>r \<in> set (interactions rr). executor_record r"
proof -
  from assms obtain acts where "run_features sim backend fs st b = Inr ((st', acts), b')"
    and "interactions rr = acts"
    by (auto simp: run_single_round_def split: sum.splits if_splits)
  then show ?thesis using run_features_executor_record by metis
qed

lemma run_rounds_executor_record:
  "run_rounds sim backend fs round_num n st history b = Inr ((st', history'), b')
     \<Longrightarrow> \<forall>rr \<in> set history. \<forall>r \<in> set (interactions rr). executor_record r
     \<Longrightarrow> \<forall>rr \<in> set history'. \<forall>r \<in> set (interactions rr). executor_record r"
proof (induction n arbitrary: round_num st history b)
  case 0
  then show ?case by simp
next
  case (Suc n)
  from Suc.prems(1) obtain st1 rr b1 where
    one: "run_single_round sim backend fs st round_num b = Inr ((st1, rr), b1)"
    and rest: "run_rounds sim backend fs (Suc round_num) n st1 (history @ [rr]) b1
                 = Inr ((st', history'), b')"
    by (auto split: sum.splits)
  have "\<forall>rr \<in> set (history @ [rr]). \<forall>r \<in> set (interactions rr). executor_record r"
    using Suc.prems(2) run_single_round_executor_record[OF one] by simp
  with rest show ?case by (rule Suc.IH)
qed

lemma collect_pairs_executor_record:
  "\<forall>r \<in> set acts. executor_record r \<Longrightarrow> collect_pairs acts S = Inr S"
  by (induction acts arbitrary: S) (simp_all add: executor_record_def)

lemma engagement_density_executor_record:
  assumes "\<forall>r \<in> set acts. executor_record r"
  shows "calculate_engagement_density acts = Inr 0"
  using collect_pairs_executor_record[OF assms, of "{}"]
  by (simp add: calculate_engagement_density_def)

text \<open>
  C9: every record of every round of a run has the key \<^verbatim>\<open>agent_name\<close> and lacks the key
  \<^verbatim>\<open>target_agent\<close>, so the engagement density over the interactions of the whole run is 0.
\<close>

theorem engagement_density_always_zero:
  assumes "run_rounds sim backend fs 0 num_rounds st [] b = Inr ((st', history), b')"
  shows "calculate_engagement_density (concat (map interactions history)) = Inr 0
         \<and> (\<forall>rr \<in> set history. \<forall>r \<in> set (interactions rr).
               dict_has r ''agent_name'' \<and> \<not> dict_has r ''target_agent'')"
proof -
  have inv: "\<forall>rr \<in> set history. \<forall>r \<in> set (interactions rr). executor_record r"
    using run_rounds_executor_record[OF assms] by simp
  then have "\<forall>r \<in> set (concat (map interactions history)). executor_record r" by auto
  then have "calculate_engagement_density (concat (map interactions history)) = Inr 0"
    by (rule engagement_density_executor_record)
  with inv show ?thesis by (simp add: executor_record_def)
qed

lemma demo_rounds:
  "\<exists>st' history b'. run_rounds demo_sim demo_backend [demo_feature] 0 2 demo_agents [] ()
      = Inr ((st', history), b')"
  by (simp add: numeral_2_eq_2 run_single_round_def demo_sim_def demo_backend_def demo_feature_def
      demo_agents_def demo_genome_def
      Agent_init_def process_feature_def make_context_def apply_analysis_def Let_def
      get_influencers_def predecessors_def influence_step_def calculate_influence_flow_def
      dict_iadd_def dict_get_str_def)

theorem engagement_density_always_zero_witness:
  "\<exists>st' history b'. run_rounds demo_sim demo_backend [demo_feature] 0 2 demo_agents [] ()
      = Inr ((st', history), b')
    \<and> calculate_engagement_density (concat (map interactions history)) = Inr 0"
proof -
  obtain st' history b' where
    r: "run_rounds demo_sim demo_backend [demo_feature] 0 2 demo_agents [] () = Inr ((st', history), b')"
    using demo_rounds by blast
  from engagement_density_always_zero[OF r] r show ?thesis by blast
qed

section \<open>The population builder\<close>

lemma truncated_count_nonneg:
  assumes "0 \<le> p"
  shows "truncated_count p = p div 5"
proof -
  have "real_of_int p / 100 * 20 = real_of_int p / 5" by simp
  moreover have "\<lfloor>real_of_int p / 5\<rfloor> = p div 5"
    using floor_divide_of_int_eq[of p 5, where ?'a = real] by simp
  moreover have "0 \<le> real_of_int p / 5" using assms by simp
  ultimately show ?thesis by (simp add: truncated_count_def py_int_def)
qed

lemma create_n_length: "length (fst (create_n n create g)) = n"
  by (induction n arbitrary: g) (simp_all add: split_beta Let_def)

lemma create_n_all:
  assumes "\<And>g. P (fst (create g))"
  shows "\<forall>a \<in> set (fst (create_n n create g)). P a"
  by (induction n arbitrary: g) (simp_all add: split_beta Let_def assms)

lemma create_internal_length: "length (fst (create_internal i n g)) = n"
  by (induction n arbitrary: i g) (simp_all add: split_beta Let_def)

lemma create_internal_all:
  assumes "\<And>r g. P (fst (create_internal_team_agent r g))"
  shows "\<forall>a \<in> set (fst (create_internal i n g)). P a"
  by (induction n arbitrary: i g) (simp_all add: split_beta Let_def assms)

lemma customer_type: "agent_type (genome (fst (create_customer_agent g))) = CUSTOMER"
  by (simp add: create_customer_agent_def Agent_default_name_def Agent_init_def unnamed_genome_def
      split_beta Let_def)

lemma competitor_type: "agent_type (genome (fst (create_competitor_agent g))) = COMPETITOR"
  by (simp add: create_competitor_agent_def Agent_default_name_def Agent_init_def unnamed_genome_def
      split_beta Let_def)

lemma influencer_type: "agent_type (genome (fst (create_influencer_agent g))) = INFLUENCER"
  by (simp add: create_influencer_agent_def Agent_default_name_def Agent_init_def unnamed_genome_def
      split_beta Let_def)

lemma internal_type: "agent_type (genome (fst (create_internal_team_agent r g))) = INTERNAL_TEAM"
  by (simp add: create_internal_team_agent_def Agent_init_def unnamed_genome_def
      split_beta Let_def)

lemma count_role_all:
  "\<forall>a \<in> set xs. agent_type (genome a) = t' \<Longrightarrow>
     count_role t xs = (if t = t' then length xs else 0)"
  by (induction xs) (auto simp: count_role_def)

lemma count_role_append: "count_role t (xs @ ys) = count_role t xs + count_role t ys"
  by (simp add: count_role_def)

lemma population_shape:
  fixes config :: "(string \<times> int) list" and g :: rng
  defines "c \<equiv> truncated_count (config_get config ''customer_percentage'' 60)"
    and "k \<equiv> truncated_count (config_get config ''competitor_percentage'' 20)"
    and "f \<equiv> truncated_count (config_get config ''influencer_percentage'' 10)"
  shows "\<exists>cs ks fs ts. fst (create_agent_population config g) = cs @ ks @ fs @ ts
           \<and> length cs = nat c \<and> length ks = nat k \<and> length fs = nat f
           \<and> length ts = nat (20 - c - k - f)
           \<and> (\<forall>a \<in> set cs. agent_type (genome a) = CUSTOMER)
           \<and> (\<forall>a \<in> set ks. agent_type (genome a) = COMPETITOR)
           \<and> (\<forall>a \<in> set fs. agent_type (genome a) = INFLUENCER)
           \<and> (\<forall>a \<in> set ts. agent_type (genome a) = INTERNAL_TEAM)"
proof -
  define nc where "nc = nat c"
  define nk where "nk = nat k"
  define nf where "nf = nat f"
  define nt where "nt = nat (20 - c - k - f)"
  define g1 where "g1 = snd (create_n nc create_customer_agent g)"
  define g2 where "g2 = snd (create_n nk create_competitor_agent g1)"
  define g3 where "g3 = snd (create_n nf create_influencer_agent g2)"
  let ?cs = "fst (create_n nc create_customer_agent g)"
  let ?ks = "fst (create_n nk create_competitor_agent g1)"
  let ?fs = "fst (create_n nf create_influencer_agent g2)"
  let ?ts = "fst (create_internal 0 nt g3)"
  have eq: "fst (create_agent_population config g) = ?cs @ ?ks @ ?fs @ ?ts"
    unfolding create_agent_population_def Let_def split_beta nc_def nk_def nf_def nt_def
      g1_def g2_def g3_def c_def k_def f_def truncated_count_def
    by simp
  have "length ?cs = nat c" "length ?ks = nat k" "length ?fs = nat f"
    "length ?ts = nat (20 - c - k - f)"
    by (simp_all add: create_n_length create_internal_length nc_def nk_def nf_def nt_def)
  moreover have "\<forall>a \<in> set ?cs. agent_type (genome a) = CUSTOMER"
    by (rule create_n_all) (rule customer_type)
  moreover have "\<forall>a \<in> set ?ks. agent_type (genome a) = COMPETITOR"
    by (rule create_n_all) (rule competitor_type)
  moreover have "\<forall>a \<in> set ?fs. agent_type (genome a) = INFLUENCER"
    by (rule create_n_all) (rule influencer_type)
  moreover have "\<forall>a \<in> set ?ts. agent_type (genome a) = INTERNAL_TEAM"
    by (rule create_internal_all) (rule internal_type)
  ultimately show ?thesis using eq by blast
qed

lemma population_counts:
  fixes config :: "(string \<times> int) list" and g :: rng
  defines "c \<equiv> truncated_count (config_get config ''customer_percentage'' 60)"
    and "k \<equiv> truncated_count (config_get config ''competitor_percentage'' 20)"
    and "f \<equiv> truncated_count (config_get config ''influencer_percentage'' 10)"
    and "agents \<equiv> fst (create_agent_population config g)"
  shows "count_role CUSTOMER agents = nat c" and "count_role COMPETITOR agents = nat k"
    and "count_role INFLUENCER agents = nat f"
    and "count_role INTERNAL_TEAM agents = nat (20 - c - k - f)"
    and "length agents = nat c + nat k + nat f + nat (20 - c - k - f)"
proof -
  from population_shape[of config g] obtain cs ks fs ts where
    eq: "agents = cs @ ks @ fs @ ts"
    and len: "length cs = nat c" "length ks = nat k" "length fs = nat f"
      "length ts = nat (20 - c - k - f)"
    and ty: "\<forall>a \<in> set cs. agent_type (genome a) = CUSTOMER"
      "\<forall>a \<in> set ks. agent_type (genome a) = COMPETITOR"
      "\<forall>a \<in> set fs. agent_type (genome a) = INFLUENCER"
      "\<forall>a \<in> set ts. agent_type (genome a) = INTERNAL_TEAM"
    unfolding c_def k_def f_def agents_def by blast
  show "count_role CUSTOMER agents = nat c" "count_role COMPETITOR agents = nat k"
    "count_role INFLUENCER agents = nat f"
    "count_role INTERNAL_TEAM agents = nat (20 - c - k - f)"
    unfolding eq count_role_append
    by (simp_all add: count_role_all[OF ty(1)] count_role_all[OF ty(2)]
        count_role_all[OF ty(3)] count_role_all[OF ty(4)] len)
  show "length agents = nat c + nat k + nat f + nat (20 - c - k - f)"
    unfolding eq using len by simp
qed


lemma percentages_within_total:
  assumes "0 \<le> pc" "0 \<le> pk" "0 \<le> pf" "pc + pk + pf \<le> 100"
  shows "0 \<le> truncated_count pc \<and> 0 \<le> truncated_count pk \<and> 0 \<le> truncated_count pf
         \<and> truncated_count pc + truncated_count pk + truncated_count pf \<le> 20"
  using assms by (simp add: truncated_count_nonneg) linarith

text \<open>
  C5, as the code has it: the builder creates, per role, as many agents as the truncated
  count says, and the internal team gets the remainder; when the three truncated counts
  are not negative and sum to at most 20 (as for non-negative percentages summing to at
  most 100), the population has exactly 20 agents.
\<close>

theorem population_counts_sum_to_total:
  assumes "0 \<le> truncated_count (config_get config ''customer_percentage'' 60)"
    and "0 \<le> truncated_count (config_get config ''competitor_percentage'' 20)"
    and "0 \<le> truncated_count (config_get config ''influencer_percentage'' 10)"
    and "truncated_count (config_get config ''customer_percentage'' 60)
         + truncated_count (config_get config ''competitor_percentage'' 20)
         + truncated_count (config_get config ''influencer_percentage'' 10) \<le> 20"
  shows "int (count_role CUSTOMER (fst (create_agent_population config g)))
           = truncated_count (config_get config ''customer_percentage'' 60)
       \<and> int (count_role COMPETITOR (fst (create_agent_population config g)))
           = truncated_count (config_get config ''competitor_percentage'' 20)
       \<and> int (count_role INFLUENCER (fst (create_agent_population config g)))
           = truncated_count (config_get config ''influencer_percentage'' 10)
       \<and> int (count_role INTERNAL_TEAM (fst (create_agent_population config g)))
           = 20 - truncated_count (config_get config ''customer_percentage'' 60)
                - truncated_count (config_get config ''competitor_percentage'' 20)
                - truncated_count (config_get config ''influencer_percentage'' 10)
       \<and> length (fst (create_agent_population config g)) = 20"
proof -
  define c where "c = truncated_count (config_get config ''customer_percentage'' 60)"
  define k where "k = truncated_count (config_get config ''competitor_percentage'' 20)"
  define f where "f = truncated_count (config_get config ''influencer_percentage'' 10)"
  have h: "0 \<le> c" "0 \<le> k" "0 \<le> f" "c + k + f \<le> 20"
    using assms unfolding c_def k_def f_def by simp_all
  have "nat c + nat k + nat f + nat (20 - c - k - f) = 20" using h by linarith
  with h population_counts[of config g, folded c_def k_def f_def]
  show ?thesis unfolding c_def[symmetric] k_def[symmetric] f_def[symmetric] by simp
qed

theorem population_counts_sum_to_total_witness:
  "count_role CUSTOMER (fst (create_agent_population demo_config (\<lambda>_. 0))) = 5
   \<and> count_role COMPETITOR (fst (create_agent_population demo_config (\<lambda>_. 0))) = 5
   \<and> count_role INFLUENCER (fst (create_agent_population demo_config (\<lambda>_. 0))) = 5
   \<and> count_role INTERNAL_TEAM (fst (create_agent_population demo_config (\<lambda>_. 0))) = 5
   \<and> length (fst (create_agent_population demo_config (\<lambda>_. 0))) = 20"
proof -
  have c: "truncated_count (config_get demo_config ''customer_percentage'' 60) = 5"
    and k: "truncated_count (config_get demo_config ''competitor_percentage'' 20) = 5"
    and f: "truncated_count (config_get demo_config ''influencer_percentage'' 10) = 5"
    by (simp_all add: demo_config_def config_get_def truncated_count_def py_int_def)
  from population_counts_sum_to_total[of demo_config "\<lambda>_. 0", unfolded c k f]
  show ?thesis by simp
qed

text \<open>
  C5 as stated fails: with percentages 40, 40, 40 the builder creates 24 agents, and with
  70, 20, 20 and -10 (which sum to 100) it creates 22, because a negative remainder creates
  no internal-team agent and takes none of the others back.
\<close>

theorem population_counts_counterexample:
  "length (fst (create_agent_population overfull_config (\<lambda>_. 0))) = 24
   \<and> length (fst (create_agent_population negative_config (\<lambda>_. 0))) = 22"
proof -
  have "truncated_count (config_get overfull_config ''customer_percentage'' 60) = 8"
    "truncated_count (config_get overfull_config ''competitor_percentage'' 20) = 8"
    "truncated_count (config_get overfull_config ''influencer_percentage'' 10) = 8"
    "truncated_count (config_get negative_config ''customer_percentage'' 60) = 14"
    "truncated_count (config_get negative_config ''competitor_percentage'' 20) = 4"
    "truncated_count (config_get negative_config ''influencer_percentage'' 10) = 4"
    by (simp_all add: overfull_config_def negative_config_def config_get_def truncated_count_def
        py_int_def)
  then show ?thesis
    using population_counts(5)[of overfull_config "\<lambda>_. 0"]
      population_counts(5)[of negative_config "\<lambda>_. 0"] by simp
qed

section \<open>The random generator and the graph primitives\<close>

lemma frac_unit: "0 \<le> fst (random_random g) \<and> fst (random_random g) < 1"
  by (simp add: random_random_def frac_lt_1)

lemma randbelow_less:
  assumes "0 < n"
  shows "fst (randbelow n g) < n"
proof -
  define u where "u = fst (random_random g)"
  have u: "0 \<le> u" "u < 1" unfolding u_def using frac_unit by simp_all
  have "u * real n < real n" using u assms by simp
  then have "\<lfloor>u * real n\<rfloor> < int n" by (simp add: floor_less_iff)
  moreover have "0 \<le> \<lfloor>u * real n\<rfloor>" using u by simp
  ultimately have "nat \<lfloor>u * real n\<rfloor> < n" by linarith
  then show ?thesis by (simp add: randbelow_def u_def split_beta)
qed

lemma randint_range:
  assumes "a \<le> b"
  shows "a \<le> fst (random_randint a b g) \<and> fst (random_randint a b g) \<le> b"
proof -
  have "0 < nat (b - a + 1)" using assms by simp
  from randbelow_less[OF this, of g] have "int (fst (randbelow (nat (b - a + 1)) g)) < b - a + 1"
    by linarith
  then show ?thesis by (simp add: random_randint_def split_beta)
qed

lemma uniform_lower:
  assumes "a \<le> b"
  shows "a \<le> fst (random_uniform a b g)"
proof -
  have "0 \<le> (b - a) * fst (random_random g)" using assms frac_unit[of g] by simp
  then show ?thesis by (simp add: random_uniform_def split_beta)
qed

lemma uniform_upper:
  assumes "a \<le> b"
  shows "fst (random_uniform a b g) \<le> b"
proof -
  have "(b - a) * fst (random_random g) \<le> (b - a) * 1"
    using assms frac_unit[of g] by (intro mult_left_mono) simp_all
  then show ?thesis by (simp add: random_uniform_def split_beta)
qed

lemma remove_nth_props:
  assumes "j < length pool"
  shows "length (take j pool @ drop (Suc j) pool) = length pool - 1"
    and "set (take j pool @ drop (Suc j) pool) \<subseteq> set pool"
    and "distinct pool \<Longrightarrow> distinct (take j pool @ drop (Suc j) pool)"
    and "distinct pool \<Longrightarrow> pool ! j \<notin> set (take j pool @ drop (Suc j) pool)"
proof -
  show "length (take j pool @ drop (Suc j) pool) = length pool - 1" using assms by simp
  show "set (take j pool @ drop (Suc j) pool) \<subseteq> set pool"
    using set_take_subset set_drop_subset by fastforce
  have pool: "pool = take j pool @ pool ! j # drop (Suc j) pool"
    using assms by (rule id_take_nth_drop)
  { assume "distinct pool"
    then have "distinct (take j pool @ pool ! j # drop (Suc j) pool)" using pool by simp
    then show "distinct (take j pool @ drop (Suc j) pool)"
      and "pool ! j \<notin> set (take j pool @ drop (Suc j) pool)" by auto }
qed

lemma random_sample_props:
  assumes "k \<le> length pool"
  shows "length (fst (random_sample pool k g)) = k
       \<and> set (fst (random_sample pool k g)) \<subseteq> set pool
       \<and> (distinct pool \<longrightarrow> distinct (fst (random_sample pool k g)))"
  using assms
proof (induction k arbitrary: pool g)
  case 0
  then show ?case by simp
next
  case (Suc k)
  define j where "j = fst (randbelow (length pool) g)"
  define g1 where "g1 = snd (randbelow (length pool) g)"
  define pool' where "pool' = take j pool @ drop (Suc j) pool"
  have pos: "0 < length pool" using Suc.prems by (cases pool) simp_all
  have j: "j < length pool" unfolding j_def using pos by (rule randbelow_less)
  have len': "k \<le> length pool'" unfolding pool'_def using Suc.prems j by simp
  note ih = Suc.IH[OF len', of g1]
  have sub: "set pool' \<subseteq> set pool" unfolding pool'_def using j by (rule remove_nth_props(2))
  have res: "fst (random_sample pool (Suc k) g) = pool ! j # fst (random_sample pool' k g1)"
    by (simp add: split_beta Let_def j_def g1_def pool'_def)
  have mem: "pool ! j \<in> set pool" using j by simp
  have d: "distinct (pool ! j # fst (random_sample pool' k g1))" if "distinct pool"
  proof -
    have "distinct pool'" unfolding pool'_def by (rule remove_nth_props(3)[OF j that])
    moreover have "pool ! j \<notin> set pool'"
      unfolding pool'_def by (rule remove_nth_props(4)[OF j that])
    ultimately have "distinct pool'" "pool ! j \<notin> set pool'" .
    with ih show ?thesis by auto
  qed
  show ?case unfolding res using ih sub mem d by auto
qed

lemma set_edge_set: "set (set_edge u v w es) \<subseteq> insert (u, v, w) (set es)"
  by (induction u v w es rule: set_edge.induct) (auto split: if_splits)

lemma set_edge_mem: "(u, v, w) \<in> set (set_edge u v w es)"
  by (induction u v w es rule: set_edge.induct) auto

lemma out_targets_Nil [simp]: "out_targets [] u = []"
  by (simp add: out_targets_def)

lemma out_targets_Cons [simp]:
  "out_targets ((a, b, c) # es) u = (if a = u then b # out_targets es u else out_targets es u)"
  by (simp add: out_targets_def)

lemma out_targets_set_edge:
  "out_targets (set_edge u v w es) u' =
     (if u' = u \<and> v \<notin> set (out_targets es u) then out_targets es u @ [v] else out_targets es u')"
proof (induction es)
  case Nil
  then show ?case by simp
next
  case (Cons e es)
  obtain a b c where e: "e = (a, b, c)" by (cases e)
  show ?case unfolding e using Cons.IH by auto
qed

lemma edges_add_edge [simp]: "edges (add_edge u v w gr) = set_edge u v w (edges gr)"
  by (simp add: add_edge_def add_node_def Let_def)

lemma nodes_add_edge: "set (nodes (add_edge u v w gr)) = insert u (insert v (set (nodes gr)))"
  by (auto simp: add_edge_def add_node_def Let_def)

lemma keys_dict_set:
  "map fst (dict_set d k v) = (if k \<in> fst ` set d then map fst d else map fst d @ [k])"
  by (induction d k v rule: dict_set.induct) auto

lemma values_dict_set: "snd ` set (dict_set d k v) \<subseteq> insert v (snd ` set d)"
  by (induction d k v rule: dict_set.induct) auto

lemma set_dict_set: "set (dict_set d k v) \<subseteq> insert (k, v) (set d)"
  by (induction d k v rule: dict_set.induct) auto

lemma registered_init: "registered (InfluenceGraph_init t)"
  by (simp add: registered_def InfluenceGraph_init_def DiGraph_init_def)

lemma register_agents_props:
  assumes "registered ig"
  shows "registered (register_agents agents ig)
       \<and> fst ` set (ig_agents (register_agents agents ig)) = fst ` set (ig_agents ig) \<union> name ` set agents
       \<and> snd ` set (ig_agents (register_agents agents ig)) \<subseteq> snd ` set (ig_agents ig) \<union> set agents
       \<and> edges (graph (register_agents agents ig)) = edges (graph ig)
       \<and> topology (register_agents agents ig) = topology ig"
  using assms
proof (induction agents arbitrary: ig)
  case Nil
  then show ?case by simp
next
  case (Cons a as)
  define ig1 where "ig1 = ig\<lparr>ig_agents := dict_set (ig_agents ig) (name a) a,
           graph := add_node (name a) (graph ig)\<rparr>"
  have keys: "fst ` set (ig_agents ig1) = insert (name a) (fst ` set (ig_agents ig))"
  proof -
    have "set (map fst (ig_agents ig1)) = insert (name a) (fst ` set (ig_agents ig))"
      unfolding ig1_def by (auto simp: keys_dict_set)
    then show ?thesis by simp
  qed
  have dist: "distinct (map fst (ig_agents ig1))"
    using Cons.prems unfolding ig1_def registered_def by (auto simp: keys_dict_set)
  have nodes1: "fst ` set (ig_agents ig1) \<subseteq> set (nodes (graph ig1))"
    using Cons.prems keys unfolding registered_def
    by (auto simp: ig1_def add_node_def)
  have names1: "\<forall>p \<in> set (ig_agents ig1). name (snd p) = fst p"
  proof
    fix p assume "p \<in> set (ig_agents ig1)"
    then have "p = (name a, a) \<or> p \<in> set (ig_agents ig)"
      unfolding ig1_def using set_dict_set[of "ig_agents ig" "name a" a] by auto
    then show "name (snd p) = fst p" using Cons.prems unfolding registered_def by auto
  qed
  have r1: "registered ig1" unfolding registered_def using dist nodes1 names1 by simp
  have vals: "snd ` set (ig_agents ig1) \<subseteq> insert a (snd ` set (ig_agents ig))"
    unfolding ig1_def using values_dict_set[of "ig_agents ig" "name a" a] by simp
  have e1: "edges (graph ig1) = edges (graph ig)" "topology ig1 = topology ig"
    unfolding ig1_def by (simp_all add: add_node_def)
  have step: "register_agents (a # as) ig = register_agents as ig1"
    unfolding ig1_def by simp
  note IH = Cons.IH[OF r1]
  have ih1: "registered (register_agents as ig1)" using IH by (rule conjunct1)
  have ih2: "fst ` set (ig_agents (register_agents as ig1)) = fst ` set (ig_agents ig1) \<union> name ` set as"
    using IH by blast
  have ih3: "snd ` set (ig_agents (register_agents as ig1)) \<subseteq> snd ` set (ig_agents ig1) \<union> set as"
    using IH by blast
  have ih4: "edges (graph (register_agents as ig1)) = edges (graph ig1)" using IH by blast
  have ih5: "topology (register_agents as ig1) = topology ig1" using IH by blast
  have v: "snd ` set (ig_agents (register_agents as ig1))
             \<subseteq> snd ` set (ig_agents ig) \<union> set (a # as)"
  proof
    fix x assume "x \<in> snd ` set (ig_agents (register_agents as ig1))"
    with ih3 have "x \<in> snd ` set (ig_agents ig1) \<or> x \<in> set as" by blast
    with vals have "x = a \<or> x \<in> snd ` set (ig_agents ig) \<or> x \<in> set as" by blast
    then show "x \<in> snd ` set (ig_agents ig) \<union> set (a # as)" by auto
  qed
  have k: "fst ` set (ig_agents (register_agents as ig1))
             = fst ` set (ig_agents ig) \<union> name ` set (a # as)"
    unfolding ih2 keys by auto
  have e: "edges (graph (register_agents as ig1)) = edges (graph ig)" using ih4 e1(1) by simp
  have t: "topology (register_agents as ig1) = topology ig" using ih5 e1(2) by simp
  show ?case unfolding step by (intro conjI ih1 k v e t)
qed

lemma registered_lookup:
  assumes "registered ig" and "x \<in> fst ` set (ig_agents ig)"
  shows "map_of (ig_agents ig) x \<noteq> None"
  using assms(2) by (simp add: map_of_eq_None_iff)

lemma score_of_mem:
  assumes "x \<in> fst ` set d"
  shows "\<exists>a \<in> snd ` set d. score_of d x = influence_score (genome a)"
proof -
  from assms obtain a where "map_of d x = Some a"
    by (cases "map_of d x") (auto simp: map_of_eq_None_iff)
  moreover from this have "(x, a) \<in> set d" by (rule map_of_SomeD)
  ultimately show ?thesis by (force simp: score_of_def)
qed

section \<open>The real-follower topology\<close>

lemma add_follow_edges_props:
  assumes "add_follow_edges d f xs gr = Inr gr'"
    and "distinct xs" and "set xs \<inter> set (out_targets (edges gr) f) = {}"
  shows "out_targets (edges gr') f = out_targets (edges gr) f @ xs"
    and "\<forall>u. u \<noteq> f \<longrightarrow> out_targets (edges gr') u = out_targets (edges gr) u"
    and "\<forall>e \<in> set (edges gr'). e \<in> set (edges gr)
            \<or> (fst e = f \<and> fst (snd e) \<in> set xs \<and> snd (snd e) = score_of d (fst (snd e)))"
    and "set (nodes gr) \<subseteq> set (nodes gr')"
  using assms
proof (induction xs arbitrary: gr)
  case Nil
  { case 1 then show ?case by simp }
  { case 2 then show ?case by simp }
  { case 3 then show ?case by simp }
  { case 4 then show ?case by simp }
next
  case (Cons x xs)
  { fix gr
    assume run: "add_follow_edges d f (x # xs) gr = Inr gr'"
      and dist: "distinct (x # xs)"
      and fresh: "set (x # xs) \<inter> set (out_targets (edges gr) f) = {}"
    from run obtain a where a: "map_of d x = Some a"
      and rest: "add_follow_edges d f xs (add_edge f x (influence_score (genome a)) gr) = Inr gr'"
      by (auto split: option.splits)
    define gr1 where "gr1 = add_edge f x (influence_score (genome a)) gr"
    have sc: "score_of d x = influence_score (genome a)" using a by (simp add: score_of_def)
    have xf: "x \<notin> set (out_targets (edges gr) f)" using fresh by simp
    have o1: "out_targets (edges gr1) f = out_targets (edges gr) f @ [x]"
      unfolding gr1_def using xf by (simp add: out_targets_set_edge)
    have o1': "\<And>u. u \<noteq> f \<Longrightarrow> out_targets (edges gr1) u = out_targets (edges gr) u"
      unfolding gr1_def by (simp add: out_targets_set_edge)
    have e1: "set (edges gr1) \<subseteq> insert (f, x, score_of d x) (set (edges gr))"
      unfolding gr1_def sc using set_edge_set by simp
    have n1: "set (nodes gr) \<subseteq> set (nodes gr1)" unfolding gr1_def by (auto simp: nodes_add_edge)
    have d': "distinct xs" using dist by simp
    have fresh': "set xs \<inter> set (out_targets (edges gr1) f) = {}"
      unfolding o1 using dist fresh by auto
    note rest' = rest[folded gr1_def]
    have A: "out_targets (edges gr') f = out_targets (edges gr) f @ (x # xs)"
      using Cons.IH(1)[OF rest' d' fresh'] o1 by simp
    have B: "\<forall>u. u \<noteq> f \<longrightarrow> out_targets (edges gr') u = out_targets (edges gr) u"
      using Cons.IH(2)[OF rest' d' fresh'] o1' by simp
    have C: "\<forall>e \<in> set (edges gr'). e \<in> set (edges gr)
            \<or> (fst e = f \<and> fst (snd e) \<in> set (x # xs) \<and> snd (snd e) = score_of d (fst (snd e)))"
    proof
      fix e assume "e \<in> set (edges gr')"
      with Cons.IH(3)[OF rest' d' fresh'] have "e \<in> set (edges gr1)
          \<or> (fst e = f \<and> fst (snd e) \<in> set xs \<and> snd (snd e) = score_of d (fst (snd e)))" by blast
      then show "e \<in> set (edges gr)
            \<or> (fst e = f \<and> fst (snd e) \<in> set (x # xs) \<and> snd (snd e) = score_of d (fst (snd e)))"
        using e1 by auto
    qed
    have D: "set (nodes gr) \<subseteq> set (nodes gr')"
      using Cons.IH(4)[OF rest' d' fresh'] n1 by blast
    note A B C D }
  note step = this
  { case 1 then show ?case by (rule step(1)) }
  { case 2 then show ?case by (rule step(2)) }
  { case 3 then show ?case by (rule step(3)) }
  { case 4 then show ?case by (rule step(4)) }
qed

lemma add_follow_edges_succeeds:
  assumes "\<forall>x \<in> set xs. map_of d x \<noteq> None"
  shows "\<exists>gr'. add_follow_edges d f xs gr = Inr gr'"
  using assms by (induction xs arbitrary: gr) auto

lemma follow_loop_Cons:
  assumes "follow_loop d infl (f # rest) gr g = Inr (gr', g')"
  obtains followed gr1 g2 where "1 \<le> length followed" and "length followed \<le> 3"
    and "set followed \<subseteq> set infl" and "distinct infl \<longrightarrow> distinct followed"
    and "add_follow_edges d f followed gr = Inr gr1"
    and "follow_loop d infl rest gr1 g2 = Inr (gr', g')"
proof -
  define hi where "hi = min 3 (int (length infl))"
  define k where "k = fst (random_randint 1 hi g)"
  define g1 where "g1 = snd (random_randint 1 hi g)"
  define followed where "followed = fst (random_sample infl (nat k) g1)"
  define g2 where "g2 = snd (random_sample infl (nat k) g1)"
  have hi: "\<not> hi < 1"
    using assms unfolding hi_def by (auto simp: Let_def split: if_splits)
  then have k: "1 \<le> k" "k \<le> hi" unfolding k_def using randint_range[of 1 hi g] by simp_all
  then have kl: "nat k \<le> length infl" unfolding hi_def by linarith
  have ok: "\<not> (k < 0 \<or> int (length infl) < k)" using k unfolding hi_def by linarith
  from assms hi ok have run:
    "(case add_follow_edges d f followed gr of Inl e \<Rightarrow> Inl e
      | Inr gr1 \<Rightarrow> follow_loop d infl rest gr1 g2) = Inr (gr', g')"
    unfolding hi_def k_def g1_def followed_def g2_def
    by (simp add: Let_def split_beta)
  then obtain gr1 where a: "add_follow_edges d f followed gr = Inr gr1"
    and r: "follow_loop d infl rest gr1 g2 = Inr (gr', g')"
    by (cases "add_follow_edges d f followed gr") simp_all
  from random_sample_props[OF kl, of g1] have
    "length followed = nat k" "set followed \<subseteq> set infl" "distinct infl \<longrightarrow> distinct followed"
    unfolding followed_def by simp_all
  moreover have "1 \<le> nat k" "nat k \<le> 3" using k unfolding hi_def by linarith+
  ultimately show ?thesis using that[OF _ _ _ _ a r] by simp
qed

lemma follow_loop_props:
  assumes "follow_loop d infl fs gr g = Inr (gr', g')"
    and "distinct fs" and "distinct infl"
    and "\<forall>f \<in> set fs. out_targets (edges gr) f = []"
  shows "(\<forall>e \<in> set (edges gr'). e \<in> set (edges gr)
            \<or> (fst e \<in> set fs \<and> fst (snd e) \<in> set infl
                \<and> snd (snd e) = score_of d (fst (snd e))))
       \<and> (\<forall>f \<in> set fs. 1 \<le> length (out_targets (edges gr') f)
              \<and> length (out_targets (edges gr') f) \<le> 3
              \<and> distinct (out_targets (edges gr') f)
              \<and> set (out_targets (edges gr') f) \<subseteq> set infl)
       \<and> (\<forall>u. u \<notin> set fs \<longrightarrow> out_targets (edges gr') u = out_targets (edges gr) u)
       \<and> set (nodes gr) \<subseteq> set (nodes gr')"
  using assms
proof (induction fs arbitrary: gr g)
  case Nil
  then show ?case by simp
next
  case (Cons f rest)
  from Cons.prems(1) obtain followed gr1 g2 where
    len: "1 \<le> length followed" "length followed \<le> 3"
    and sub: "set followed \<subseteq> set infl" and dis: "distinct infl \<longrightarrow> distinct followed"
    and add: "add_follow_edges d f followed gr = Inr gr1"
    and rest: "follow_loop d infl rest gr1 g2 = Inr (gr', g')"
    by (rule follow_loop_Cons)
  have df: "distinct followed" using dis Cons.prems(3) by simp
  have f0: "out_targets (edges gr) f = []" using Cons.prems(4) by simp
  have fresh: "set followed \<inter> set (out_targets (edges gr) f) = {}" unfolding f0 by simp
  note P = add_follow_edges_props[OF add df fresh]
  have o1: "out_targets (edges gr1) f = followed" using P(1) f0 by simp
  have frest: "f \<notin> set rest" and drest: "distinct rest" using Cons.prems(2) by simp_all
  have pre: "\<forall>f' \<in> set rest. out_targets (edges gr1) f' = []"
  proof
    fix f' assume "f' \<in> set rest"
    then have "f' \<noteq> f" "out_targets (edges gr) f' = []" using frest Cons.prems(4) by auto
    then show "out_targets (edges gr1) f' = []" using P(2) by simp
  qed
  note IH = Cons.IH[OF rest drest Cons.prems(3) pre]
  have ih1: "\<forall>e \<in> set (edges gr'). e \<in> set (edges gr1)
            \<or> (fst e \<in> set rest \<and> fst (snd e) \<in> set infl
                \<and> snd (snd e) = score_of d (fst (snd e)))" using IH by blast
  have ih2: "\<forall>f \<in> set rest. 1 \<le> length (out_targets (edges gr') f)
              \<and> length (out_targets (edges gr') f) \<le> 3
              \<and> distinct (out_targets (edges gr') f)
              \<and> set (out_targets (edges gr') f) \<subseteq> set infl" using IH by blast
  have ih3: "\<forall>u. u \<notin> set rest \<longrightarrow> out_targets (edges gr') u = out_targets (edges gr1) u"
    using IH by blast
  have ih4: "set (nodes gr1) \<subseteq> set (nodes gr')" using IH by blast
  have A: "\<forall>e \<in> set (edges gr'). e \<in> set (edges gr)
            \<or> (fst e \<in> set (f # rest) \<and> fst (snd e) \<in> set infl
                \<and> snd (snd e) = score_of d (fst (snd e)))"
  proof
    fix e assume "e \<in> set (edges gr')"
    with ih1 have "e \<in> set (edges gr1) \<or> (fst e \<in> set rest \<and> fst (snd e) \<in> set infl
                \<and> snd (snd e) = score_of d (fst (snd e)))" by blast
    moreover have "e \<in> set (edges gr) \<or> (fst e = f \<and> fst (snd e) \<in> set followed
        \<and> snd (snd e) = score_of d (fst (snd e)))" if "e \<in> set (edges gr1)"
      using P(3) that by blast
    ultimately show "e \<in> set (edges gr)
            \<or> (fst e \<in> set (f # rest) \<and> fst (snd e) \<in> set infl
                \<and> snd (snd e) = score_of d (fst (snd e)))"
      using sub by auto
  qed
  have of': "out_targets (edges gr') f = followed" using ih3 frest o1 by simp
  have B: "\<forall>f' \<in> set (f # rest). 1 \<le> length (out_targets (edges gr') f')
              \<and> length (out_targets (edges gr') f') \<le> 3
              \<and> distinct (out_targets (edges gr') f')
              \<and> set (out_targets (edges gr') f') \<subseteq> set infl"
    using ih2 of' len df sub by simp
  have C: "\<forall>u. u \<notin> set (f # rest) \<longrightarrow> out_targets (edges gr') u = out_targets (edges gr) u"
    using ih3 P(2) by simp
  have D: "set (nodes gr) \<subseteq> set (nodes gr')" using P(4) ih4 by blast
  show ?case by (intro conjI A B C D)
qed

lemma follow_loop_succeeds:
  assumes "infl \<noteq> []" and "\<forall>x \<in> set infl. map_of d x \<noteq> None"
  shows "\<exists>gr' g'. follow_loop d infl fs gr g = Inr (gr', g')"
proof (induction fs arbitrary: gr g)
  case Nil
  then show ?case by simp
next
  case (Cons f rest)
  define hi where "hi = min 3 (int (length infl))"
  define k where "k = fst (random_randint 1 hi g)"
  define g1 where "g1 = snd (random_randint 1 hi g)"
  define followed where "followed = fst (random_sample infl (nat k) g1)"
  define g2 where "g2 = snd (random_sample infl (nat k) g1)"
  have hi: "\<not> hi < 1" unfolding hi_def using assms(1) by (cases infl) simp_all
  then have k: "1 \<le> k" "k \<le> hi" unfolding k_def using randint_range[of 1 hi g] by simp_all
  then have kl: "nat k \<le> length infl" unfolding hi_def by linarith
  have ok: "\<not> (k < 0 \<or> int (length infl) < k)" using k unfolding hi_def by linarith
  have "set followed \<subseteq> set infl"
    using random_sample_props[OF kl, of g1] unfolding followed_def by simp
  then have "\<forall>x \<in> set followed. map_of d x \<noteq> None" using assms(2) by blast
  from add_follow_edges_succeeds[OF this] obtain gr1 where
    a: "add_follow_edges d f followed gr = Inr gr1" by blast
  from Cons[of gr1 g2] obtain gr' g' where "follow_loop d infl rest gr1 g2 = Inr (gr', g')"
    by blast
  with a hi ok have "follow_loop d infl (f # rest) gr g = Inr (gr', g')"
    unfolding hi_def k_def g1_def followed_def g2_def by (simp add: Let_def split_beta)
  then show ?case by blast
qed



lemma real_follower_built:
  fixes agents :: "Agent list" and g :: rng
  defines "ig1 \<equiv> register_agents agents (InfluenceGraph_init REAL_FOLLOWER)"
  defines "d \<equiv> ig_agents ig1"
  defines "sorted_agents \<equiv> sort_key (descending_key d) (map fst d)"
  defines "influencers \<equiv> take (max 1 (length sorted_agents div 5)) sorted_agents"
  defines "followers \<equiv> drop (max 1 (length sorted_agents div 5)) sorted_agents"
  shows "\<exists>gr' g'. add_agents (InfluenceGraph_init REAL_FOLLOWER) agents g = Inr (ig1\<lparr>graph := gr'\<rparr>, g')
           \<and> follow_loop d influencers followers (graph ig1) g = Inr (gr', g')"
proof -
  have reg: "registered ig1" and top: "topology ig1 = REAL_FOLLOWER"
    unfolding ig1_def using register_agents_props[OF registered_init, of agents REAL_FOLLOWER]
    by (simp_all add: InfluenceGraph_init_def)
  have all: "list_all (\<lambda>x. map_of d x \<noteq> None) (map fst d)"
    unfolding list_all_iff by (auto simp: map_of_eq_None_iff)
  have known: "\<forall>x \<in> set influencers. map_of d x \<noteq> None"
  proof
    fix x assume "x \<in> set influencers"
    then have "x \<in> set sorted_agents" unfolding influencers_def by (rule in_set_takeD)
    then have "x \<in> fst ` set d" unfolding sorted_agents_def by simp
    then show "map_of d x \<noteq> None" by (simp add: map_of_eq_None_iff)
  qed
  have "\<exists>gr' g'. follow_loop d influencers followers (graph ig1) g = Inr (gr', g')"
  proof (cases "sorted_agents = []")
    case True
    then show ?thesis unfolding followers_def by simp
  next
    case False
    then have "influencers \<noteq> []" unfolding influencers_def by simp
    from follow_loop_succeeds[OF this known] show ?thesis .
  qed
  then obtain gr' g' where fl: "follow_loop d influencers followers (graph ig1) g = Inr (gr', g')"
    by blast
  have "add_agents (InfluenceGraph_init REAL_FOLLOWER) agents g = Inr (ig1\<lparr>graph := gr'\<rparr>, g')"
    unfolding add_agents_def create_network_edges_def ig1_def[symmetric] top
    using all fl
    unfolding d_def[symmetric] sorted_agents_def influencers_def followers_def
    by (simp add: Let_def)
  with fl show ?thesis by blast
qed



section \<open>The loose-network topology\<close>

lemma add_weighted_edges_props:
  assumes "add_weighted_edges a xs gr g = (gr', g')"
    and "distinct xs" and "set xs \<inter> set (out_targets (edges gr) a) = {}"
  shows "out_targets (edges gr') a = out_targets (edges gr) a @ xs
       \<and> (\<forall>u. u \<noteq> a \<longrightarrow> out_targets (edges gr') u = out_targets (edges gr) u)
       \<and> (\<forall>e \<in> set (edges gr'). e \<in> set (edges gr)
            \<or> (fst e = a \<and> fst (snd e) \<in> set xs \<and> 1 / 10 \<le> snd (snd e)))
       \<and> set (nodes gr) \<subseteq> set (nodes gr')"
  using assms
proof (induction xs arbitrary: gr g)
  case Nil
  then show ?case by simp
next
  case (Cons x xs)
  define w where "w = fst (random_uniform 0.1 1.0 g)"
  define g1 where "g1 = snd (random_uniform 0.1 1.0 g)"
  define gr1 where "gr1 = add_edge a x w gr"
  have rest: "add_weighted_edges a xs gr1 g1 = (gr', g')"
    using Cons.prems(1) unfolding w_def g1_def gr1_def by (simp add: split_beta Let_def)
  have w: "1 / 10 \<le> w" unfolding w_def using uniform_lower[of "0.1" "1.0" g] by simp
  have xf: "x \<notin> set (out_targets (edges gr) a)" using Cons.prems(3) by simp
  have o1: "out_targets (edges gr1) a = out_targets (edges gr) a @ [x]"
    unfolding gr1_def using xf by (simp add: out_targets_set_edge)
  have o1': "\<And>u. u \<noteq> a \<Longrightarrow> out_targets (edges gr1) u = out_targets (edges gr) u"
    unfolding gr1_def by (simp add: out_targets_set_edge)
  have e1: "set (edges gr1) \<subseteq> insert (a, x, w) (set (edges gr))"
    unfolding gr1_def using set_edge_set by simp
  have n1: "set (nodes gr) \<subseteq> set (nodes gr1)" unfolding gr1_def by (auto simp: nodes_add_edge)
  have d': "distinct xs" using Cons.prems(2) by simp
  have fresh': "set xs \<inter> set (out_targets (edges gr1) a) = {}"
    unfolding o1 using Cons.prems(2,3) by auto
  note IH = Cons.IH[OF rest d' fresh']
  have ih1: "out_targets (edges gr') a = out_targets (edges gr1) a @ xs" using IH by blast
  have ih2: "\<forall>u. u \<noteq> a \<longrightarrow> out_targets (edges gr') u = out_targets (edges gr1) u"
    using IH by blast
  have ih3: "\<forall>e \<in> set (edges gr'). e \<in> set (edges gr1)
            \<or> (fst e = a \<and> fst (snd e) \<in> set xs \<and> 1 / 10 \<le> snd (snd e))" using IH by blast
  have ih4: "set (nodes gr1) \<subseteq> set (nodes gr')" using IH by blast
  have A: "out_targets (edges gr') a = out_targets (edges gr) a @ (x # xs)"
    using ih1 o1 by simp
  have B: "\<forall>u. u \<noteq> a \<longrightarrow> out_targets (edges gr') u = out_targets (edges gr) u"
    using ih2 o1' by simp
  have C: "\<forall>e \<in> set (edges gr'). e \<in> set (edges gr)
            \<or> (fst e = a \<and> fst (snd e) \<in> set (x # xs) \<and> 1 / 10 \<le> snd (snd e))"
  proof
    fix e assume "e \<in> set (edges gr')"
    with ih3 have "e \<in> set (edges gr1)
          \<or> (fst e = a \<and> fst (snd e) \<in> set xs \<and> 1 / 10 \<le> snd (snd e))" by blast
    then show "e \<in> set (edges gr)
            \<or> (fst e = a \<and> fst (snd e) \<in> set (x # xs) \<and> 1 / 10 \<le> snd (snd e))"
      using e1 w by auto
  qed
  have D: "set (nodes gr) \<subseteq> set (nodes gr')" using n1 ih4 by blast
  show ?case by (intro conjI A B C D)
qed

lemma length_filter_other:
  assumes "distinct xs" and "a \<in> set xs"
  shows "length (filter (\<lambda>n. n \<noteq> a) xs) = length xs - 1"
  using assms
proof (induction xs)
  case Nil
  then show ?case by simp
next
  case (Cons x xs)
  show ?case
  proof (cases "x = a")
    case True
    then have "a \<notin> set xs" using Cons.prems(1) by simp
    then have "filter (\<lambda>n. n \<noteq> a) xs = xs" by (auto simp: filter_id_conv)
    then show ?thesis using True by simp
  next
    case False
    then have m: "a \<in> set xs" using Cons.prems(2) by simp
    then have "0 < length xs" by (rule length_pos_if_in_set)
    moreover have "length (filter (\<lambda>n. n \<noteq> a) xs) = length xs - 1"
      using Cons.IH Cons.prems(1) m by simp
    ultimately show ?thesis using False by simp
  qed
qed

lemma loose_loop_Cons:
  assumes "loose_loop names (a # rest) gr g = Inr (gr', g')"
    and "distinct names" and "a \<in> set names"
  obtains r connections g2 gr1 g3 where "2 \<le> r" and "r \<le> 4"
    and "length connections = min r (length names - 1)"
    and "distinct connections" and "set connections \<subseteq> set names - {a}"
    and "add_weighted_edges a connections gr g2 = (gr1, g3)"
    and "loose_loop names rest gr1 g3 = Inr (gr', g')"
proof -
  define nc where "nc = fst (random_randint 2 4 g)"
  define g1 where "g1 = snd (random_randint 2 4 g)"
  define candidates where "candidates = filter (\<lambda>n. n \<noteq> a) names"
  define k where "k = min nc (int (length names) - 1)"
  define connections where "connections = fst (random_sample candidates (nat k) g1)"
  define g2 where "g2 = snd (random_sample candidates (nat k) g1)"
  define gr1 where "gr1 = fst (add_weighted_edges a connections gr g2)"
  define g3 where "g3 = snd (add_weighted_edges a connections gr g2)"
  have nc: "2 \<le> nc" "nc \<le> 4" unfolding nc_def using randint_range[of 2 4 g] by simp_all
  have lc: "length candidates = length names - 1"
    unfolding candidates_def using assms(2,3) by (rule length_filter_other)
  have pos: "0 < length names" using assms(3) by (cases names) auto
  have ok: "\<not> (k < 0 \<or> int (length candidates) < k)"
    unfolding k_def lc using nc pos by linarith
  have kl: "nat k \<le> length candidates" using ok by linarith
  have unf: "loose_loop names (a # rest) gr g =
      (if k < 0 \<or> int (length candidates) < k then Inl ValueError
       else loose_loop names rest gr1 g3)"
    unfolding nc_def g1_def candidates_def k_def connections_def g2_def gr1_def g3_def
    by (simp only: loose_loop.simps Let_def split_beta)
  have run: "loose_loop names rest gr1 g3 = Inr (gr', g')"
    using assms(1) unfolding unf if_not_P[OF ok] .
  have dc: "distinct candidates" unfolding candidates_def using assms(2) by simp
  from random_sample_props[OF kl, of g1] dc have
    c: "length connections = nat k" "set connections \<subseteq> set candidates" "distinct connections"
    unfolding connections_def by simp_all
  have "nat k = min (nat nc) (length names - 1)" unfolding k_def using nc pos by linarith
  with c(1) have l: "length connections = min (nat nc) (length names - 1)" by simp
  have s: "set connections \<subseteq> set names - {a}" using c(2) unfolding candidates_def by auto
  have r: "2 \<le> nat nc" "nat nc \<le> 4" using nc by linarith+
  have aw: "add_weighted_edges a connections gr g2 = (gr1, g3)" unfolding gr1_def g3_def by simp
  show ?thesis using that[OF r l c(3) s aw run] .
qed

lemma loose_loop_succeeds:
  assumes "distinct names" and "set rest \<subseteq> set names"
  shows "\<exists>gr' g'. loose_loop names rest gr g = Inr (gr', g')"
  using assms(2)
proof (induction rest arbitrary: gr g)
  case Nil
  then show ?case by simp
next
  case (Cons a rest)
  define nc where "nc = fst (random_randint 2 4 g)"
  define g1 where "g1 = snd (random_randint 2 4 g)"
  define candidates where "candidates = filter (\<lambda>n. n \<noteq> a) names"
  define k where "k = min nc (int (length names) - 1)"
  define connections where "connections = fst (random_sample candidates (nat k) g1)"
  define g2 where "g2 = snd (random_sample candidates (nat k) g1)"
  define gr1 where "gr1 = fst (add_weighted_edges a connections gr g2)"
  define g3 where "g3 = snd (add_weighted_edges a connections gr g2)"
  have a: "a \<in> set names" using Cons.prems by simp
  have nc: "2 \<le> nc" "nc \<le> 4" unfolding nc_def using randint_range[of 2 4 g] by simp_all
  have lc: "length candidates = length names - 1"
    unfolding candidates_def using assms(1) a by (rule length_filter_other)
  have pos: "0 < length names" using a by (cases names) auto
  have ok: "\<not> (k < 0 \<or> int (length candidates) < k)"
    unfolding k_def lc using nc pos by linarith
  have "set rest \<subseteq> set names" using Cons.prems by simp
  from Cons.IH[OF this, of gr1 g3] obtain gr' g' where
    "loose_loop names rest gr1 g3 = Inr (gr', g')" by blast
  moreover have unf: "loose_loop names (a # rest) gr g =
      (if k < 0 \<or> int (length candidates) < k then Inl ValueError
       else loose_loop names rest gr1 g3)"
    unfolding nc_def g1_def candidates_def k_def connections_def g2_def gr1_def g3_def
    by (simp only: loose_loop.simps Let_def split_beta)
  ultimately have "loose_loop names (a # rest) gr g = Inr (gr', g')"
    unfolding if_not_P[OF ok] by simp
  then show ?case by blast
qed

lemma loose_loop_props:
  assumes "loose_loop names rest gr g = Inr (gr', g')"
    and "distinct names" and "distinct rest" and "set rest \<subseteq> set names"
    and "\<forall>a \<in> set rest. out_targets (edges gr) a = []"
  shows "(\<forall>e \<in> set (edges gr'). e \<in> set (edges gr)
            \<or> (fst e \<in> set rest \<and> fst (snd e) \<in> set names \<and> fst (snd e) \<noteq> fst e
                \<and> 1 / 10 \<le> snd (snd e)))
       \<and> (\<forall>a \<in> set rest. distinct (out_targets (edges gr') a)
              \<and> set (out_targets (edges gr') a) \<subseteq> set names - {a}
              \<and> (\<exists>r. 2 \<le> r \<and> r \<le> 4
                    \<and> length (out_targets (edges gr') a) = min r (length names - 1)))
       \<and> (\<forall>u. u \<notin> set rest \<longrightarrow> out_targets (edges gr') u = out_targets (edges gr) u)
       \<and> set (nodes gr) \<subseteq> set (nodes gr')"
  using assms(1,3,4,5)
proof (induction rest arbitrary: gr g)
  case Nil
  then show ?case by simp
next
  case (Cons a rest)
  have a: "a \<in> set names" using Cons.prems(3) by simp
  from Cons.prems(1) assms(2) a obtain r connections g2 gr1 g3 where
    r: "2 \<le> r" "r \<le> (4::nat)"
    and len: "length connections = min r (length names - 1)"
    and dc: "distinct connections" and sub: "set connections \<subseteq> set names - {a}"
    and add: "add_weighted_edges a connections gr g2 = (gr1, g3)"
    and rest: "loose_loop names rest gr1 g3 = Inr (gr', g')"
    by (rule loose_loop_Cons)
  have a0: "out_targets (edges gr) a = []" using Cons.prems(4) by simp
  have fresh: "set connections \<inter> set (out_targets (edges gr) a) = {}" unfolding a0 by simp
  note P = add_weighted_edges_props[OF add dc fresh]
  have p1: "out_targets (edges gr1) a = connections" using P a0 by simp
  have p2: "\<forall>u. u \<noteq> a \<longrightarrow> out_targets (edges gr1) u = out_targets (edges gr) u"
    using P by blast
  have p3: "\<forall>e \<in> set (edges gr1). e \<in> set (edges gr)
            \<or> (fst e = a \<and> fst (snd e) \<in> set connections \<and> 1 / 10 \<le> snd (snd e))"
    using P by blast
  have p4: "set (nodes gr) \<subseteq> set (nodes gr1)" using P by blast
  have arest: "a \<notin> set rest" and drest: "distinct rest" using Cons.prems(2) by simp_all
  have srest: "set rest \<subseteq> set names" using Cons.prems(3) by simp
  have pre: "\<forall>b \<in> set rest. out_targets (edges gr1) b = []"
  proof
    fix b assume "b \<in> set rest"
    then have "b \<noteq> a" "out_targets (edges gr) b = []" using arest Cons.prems(4) by auto
    then show "out_targets (edges gr1) b = []" using p2 by simp
  qed
  note IH = Cons.IH[OF rest drest srest pre]
  have ih1: "\<forall>e \<in> set (edges gr'). e \<in> set (edges gr1)
            \<or> (fst e \<in> set rest \<and> fst (snd e) \<in> set names \<and> fst (snd e) \<noteq> fst e
                \<and> 1 / 10 \<le> snd (snd e))" using IH by blast
  have ih2: "\<forall>a \<in> set rest. distinct (out_targets (edges gr') a)
              \<and> set (out_targets (edges gr') a) \<subseteq> set names - {a}
              \<and> (\<exists>r. 2 \<le> r \<and> r \<le> 4
                    \<and> length (out_targets (edges gr') a) = min r (length names - 1))"
    using IH by blast
  have ih3: "\<forall>u. u \<notin> set rest \<longrightarrow> out_targets (edges gr') u = out_targets (edges gr1) u"
    using IH by blast
  have ih4: "set (nodes gr1) \<subseteq> set (nodes gr')" using IH by blast
  have A: "\<forall>e \<in> set (edges gr'). e \<in> set (edges gr)
            \<or> (fst e \<in> set (a # rest) \<and> fst (snd e) \<in> set names \<and> fst (snd e) \<noteq> fst e
                \<and> 1 / 10 \<le> snd (snd e))"
  proof
    fix e assume "e \<in> set (edges gr')"
    with ih1 have "e \<in> set (edges gr1) \<or> (fst e \<in> set rest \<and> fst (snd e) \<in> set names
        \<and> fst (snd e) \<noteq> fst e \<and> 1 / 10 \<le> snd (snd e))" by blast
    moreover have "e \<in> set (edges gr) \<or> (fst e = a \<and> fst (snd e) \<in> set connections
        \<and> 1 / 10 \<le> snd (snd e))" if "e \<in> set (edges gr1)"
      using p3 that by blast
    ultimately show "e \<in> set (edges gr)
            \<or> (fst e \<in> set (a # rest) \<and> fst (snd e) \<in> set names \<and> fst (snd e) \<noteq> fst e
                \<and> 1 / 10 \<le> snd (snd e))"
      using sub by auto
  qed
  have oa: "out_targets (edges gr') a = connections" using ih3 arest p1 by simp
  have Ba: "distinct (out_targets (edges gr') a)
              \<and> set (out_targets (edges gr') a) \<subseteq> set names - {a}
              \<and> (\<exists>r. 2 \<le> r \<and> r \<le> 4
                    \<and> length (out_targets (edges gr') a) = min r (length names - 1))"
    unfolding oa using dc sub r len by blast
  have B: "\<forall>a \<in> set (a # rest). distinct (out_targets (edges gr') a)
              \<and> set (out_targets (edges gr') a) \<subseteq> set names - {a}
              \<and> (\<exists>r. 2 \<le> r \<and> r \<le> 4
                    \<and> length (out_targets (edges gr') a) = min r (length names - 1))"
    using Ba ih2 by simp
  have C: "\<forall>u. u \<notin> set (a # rest) \<longrightarrow> out_targets (edges gr') u = out_targets (edges gr) u"
    using ih3 p2 by simp
  have D: "set (nodes gr) \<subseteq> set (nodes gr')" using p4 ih4 by blast
  show ?case by (intro conjI A B C D)
qed







section \<open>No self-loops, positive weights\<close>

lemma echo_inner_props:
  assumes "echo_inner d i a agent js gr g = Inr (gr', g')"
    and "\<forall>p \<in> set js. fst p \<noteq> i \<longrightarrow> snd p \<noteq> a"
    and "\<forall>e \<in> set (edges gr). edge_ok e"
  shows "\<forall>e \<in> set (edges gr'). edge_ok e"
  using assms
proof (induction js arbitrary: gr g)
  case Nil
  then show ?case by simp
next
  case (Cons p js)
  obtain j other where p: "p = (j, other)" by (cases p)
  have rest_ok: "\<forall>p \<in> set js. fst p \<noteq> i \<longrightarrow> snd p \<noteq> a" using Cons.prems(2) by simp
  show ?case
  proof (cases "i \<noteq> j")
    case False
    then have "echo_inner d i a agent js gr g = Inr (gr', g')" using Cons.prems(1) p by simp
    from Cons.IH[OF this rest_ok Cons.prems(3)] show ?thesis .
  next
    case True
    then have ne: "other \<noteq> a" using Cons.prems(2) p by auto
    from Cons.prems(1) p True obtain other_agent where oa: "map_of d other = Some other_agent"
      by (cases "map_of d other") simp_all
    define similarity where
      "similarity = 1 - \<bar>current_opinion agent - current_opinion other_agent\<bar>"
    define u where "u = fst (random_random g)"
    define g1 where "g1 = snd (random_random g)"
    define gr1 where
      "gr1 = (if u < similarity * 0.3 then add_edge a other similarity gr else gr)"
    have run: "echo_inner d i a agent js gr1 g1 = Inr (gr', g')"
      using Cons.prems(1) p True oa
      unfolding similarity_def u_def g1_def gr1_def by (simp add: Let_def split_beta)
    have ok1: "\<forall>e \<in> set (edges gr1). edge_ok e"
    proof (cases "u < similarity * 0.3")
      case False
      then show ?thesis unfolding gr1_def using Cons.prems(3) by simp
    next
      case lt: True
      have "0 \<le> u" unfolding u_def using frac_unit by simp
      with lt have "0 < similarity" by simp
      then have "edge_ok (a, other, similarity)" using ne by (simp add: edge_ok_def)
      moreover have "set (edges gr1) \<subseteq> insert (a, other, similarity) (set (edges gr))"
        unfolding gr1_def using lt set_edge_set by simp
      ultimately show ?thesis using Cons.prems(3) by blast
    qed
    from Cons.IH[OF run rest_ok ok1] show ?thesis .
  qed
qed

lemma echo_inner_succeeds:
  assumes "\<forall>p \<in> set js. map_of d (snd p) \<noteq> None"
  shows "\<exists>gr' g'. echo_inner d i a agent js gr g = Inr (gr', g')"
  using assms
proof (induction js arbitrary: gr g)
  case Nil
  then show ?case by simp
next
  case (Cons p js)
  obtain j other where p: "p = (j, other)" by (cases p)
  from Cons.prems p obtain other_agent where oa: "map_of d other = Some other_agent" by auto
  have rest: "\<forall>p \<in> set js. map_of d (snd p) \<noteq> None" using Cons.prems by simp
  show ?case
  proof (cases "i \<noteq> j")
    case False
    then show ?thesis unfolding p using Cons.IH[OF rest] by simp
  next
    case True
    then show ?thesis unfolding p using Cons.IH[OF rest] oa by (simp add: Let_def split_beta)
  qed
qed

lemma echo_outer_props:
  assumes "echo_outer d all_names rest gr g = Inr (gr', g')"
    and "\<forall>q \<in> set rest. \<forall>p \<in> set all_names. fst p \<noteq> fst q \<longrightarrow> snd p \<noteq> snd q"
    and "\<forall>e \<in> set (edges gr). edge_ok e"
  shows "\<forall>e \<in> set (edges gr'). edge_ok e"
  using assms
proof (induction rest arbitrary: gr g)
  case Nil
  then show ?case by simp
next
  case (Cons q rest)
  obtain i a where q: "q = (i, a)" by (cases q)
  from Cons.prems(1) q obtain agent where ag: "map_of d a = Some agent"
    by (cases "map_of d a") simp_all
  from Cons.prems(1) q ag obtain gr1 g1 where
    inner: "echo_inner d i a agent all_names gr g = Inr (gr1, g1)"
    and outer: "echo_outer d all_names rest gr1 g1 = Inr (gr', g')"
    by (cases "echo_inner d i a agent all_names gr g") auto
  have "\<forall>p \<in> set all_names. fst p \<noteq> i \<longrightarrow> snd p \<noteq> a" using Cons.prems(2) q by simp
  from echo_inner_props[OF inner this Cons.prems(3)] have ok1: "\<forall>e \<in> set (edges gr1). edge_ok e" .
  have "\<forall>q \<in> set rest. \<forall>p \<in> set all_names. fst p \<noteq> fst q \<longrightarrow> snd p \<noteq> snd q"
    using Cons.prems(2) by simp
  from Cons.IH[OF outer this ok1] show ?case .
qed

lemma echo_outer_succeeds:
  assumes "\<forall>p \<in> set all_names. map_of d (snd p) \<noteq> None"
    and "\<forall>p \<in> set rest. map_of d (snd p) \<noteq> None"
  shows "\<exists>gr' g'. echo_outer d all_names rest gr g = Inr (gr', g')"
  using assms(2)
proof (induction rest arbitrary: gr g)
  case Nil
  then show ?case by simp
next
  case (Cons q rest)
  obtain i a where q: "q = (i, a)" by (cases q)
  from Cons.prems q obtain agent where ag: "map_of d a = Some agent" by auto
  from echo_inner_succeeds[OF assms(1), of i a agent gr g] obtain gr1 g1 where
    inner: "echo_inner d i a agent all_names gr g = Inr (gr1, g1)" by blast
  have "\<forall>p \<in> set rest. map_of d (snd p) \<noteq> None" using Cons.prems by simp
  from Cons.IH[OF this, of gr1 g1] show ?case unfolding q using ag inner by simp
qed

lemma enumerate_distinct:
  assumes "distinct names" and "q \<in> set (enumerate 0 names)" and "p \<in> set (enumerate 0 names)"
    and "fst p \<noteq> fst q"
  shows "snd p \<noteq> snd q"
proof -
  from assms(2,3) have "fst q < length names" "snd q = names ! fst q"
    "fst p < length names" "snd p = names ! fst p"
    by (auto simp: in_set_enumerate_eq)
  with assms(1,4) show ?thesis by (simp add: nth_eq_iff_index_eq)
qed

lemma population_all:
  assumes "\<And>g. P (fst (create_customer_agent g))"
    and "\<And>g. P (fst (create_competitor_agent g))"
    and "\<And>g. P (fst (create_influencer_agent g))"
    and "\<And>r g. P (fst (create_internal_team_agent r g))"
  shows "\<forall>a \<in> set (fst (create_agent_population config g)). P a"
proof -
  note c = create_n_all[of P create_customer_agent, OF assms(1)]
  note k = create_n_all[of P create_competitor_agent, OF assms(2)]
  note f = create_n_all[of P create_influencer_agent, OF assms(3)]
  note t = create_internal_all[of P, OF assms(4)]
  show ?thesis
    unfolding create_agent_population_def Let_def split_beta fst_conv set_append
    using c k f t by blast
qed

lemma uniform_pos: "a \<le> b \<Longrightarrow> 0 < a \<Longrightarrow> 0 < fst (random_uniform a b g)"
  using uniform_lower[of a b g] by simp

lemma uniform_le: "a \<le> b \<Longrightarrow> b \<le> c \<Longrightarrow> fst (random_uniform a b g) \<le> c"
  using uniform_upper[of a b g] by simp

lemma customer_fresh: "fresh_agent (fst (create_customer_agent g))"
  by (simp add: fresh_agent_def create_customer_agent_def Agent_default_name_def Agent_init_def
      unnamed_genome_def split_beta Let_def uniform_pos uniform_le)

lemma competitor_fresh: "fresh_agent (fst (create_competitor_agent g))"
  by (simp add: fresh_agent_def create_competitor_agent_def Agent_default_name_def Agent_init_def
      unnamed_genome_def split_beta Let_def uniform_pos uniform_le)

lemma influencer_fresh: "fresh_agent (fst (create_influencer_agent g))"
  by (simp add: fresh_agent_def create_influencer_agent_def Agent_default_name_def Agent_init_def
      unnamed_genome_def split_beta Let_def uniform_pos uniform_le)

lemma internal_fresh: "fresh_agent (fst (create_internal_team_agent r g))"
  by (simp add: fresh_agent_def create_internal_team_agent_def Agent_init_def
      unnamed_genome_def split_beta Let_def uniform_pos uniform_le)

lemma population_fresh: "\<forall>a \<in> set (fst (create_agent_population config g)). fresh_agent a"
  by (rule population_all) (rule customer_fresh competitor_fresh influencer_fresh internal_fresh)+

lemma built_edges_ok:
  assumes "t = REAL_FOLLOWER \<longrightarrow> (\<forall>a \<in> set agents. 0 < influence_score (genome a))"
  shows "\<exists>ig g'. add_agents (InfluenceGraph_init t) agents g = Inr (ig, g')
           \<and> (\<forall>e \<in> set (edges (graph ig)). edge_ok e)"
proof -
  define ig1 where "ig1 = register_agents agents (InfluenceGraph_init t)"
  define d where "d = ig_agents ig1"
  define names where "names = map fst d"
  note R = register_agents_props[OF registered_init, of agents t]
  have reg: "registered ig1" unfolding ig1_def using R by blast
  have top: "topology ig1 = t" unfolding ig1_def using R by (simp add: InfluenceGraph_init_def)
  have e0: "edges (graph ig1) = []"
    unfolding ig1_def using R by (simp add: InfluenceGraph_init_def DiGraph_init_def)
  have vals: "snd ` set d \<subseteq> set agents"
    unfolding d_def ig1_def using R by (simp add: InfluenceGraph_init_def)
  have dn: "distinct names" using reg unfolding registered_def names_def d_def by blast
  have known: "\<forall>x \<in> set names. map_of d x \<noteq> None"
    unfolding names_def by (simp add: map_of_eq_None_iff)
  show ?thesis
  proof (cases t)
    case ECHO_CHAMBER
    have k: "\<forall>p \<in> set (enumerate 0 names). map_of d (snd p) \<noteq> None"
      using known by (auto simp: in_set_enumerate_eq)
    from echo_outer_succeeds[OF k k, of "graph ig1" g] obtain gr' g' where
      run: "echo_outer d (enumerate 0 names) (enumerate 0 names) (graph ig1) g = Inr (gr', g')"
      by blast
    have sep: "\<forall>q \<in> set (enumerate 0 names). \<forall>p \<in> set (enumerate 0 names).
                 fst p \<noteq> fst q \<longrightarrow> snd p \<noteq> snd q"
      using enumerate_distinct[OF dn] by blast
    have "\<forall>e \<in> set (edges (graph ig1)). edge_ok e" unfolding e0 by simp
    from echo_outer_props[OF run sep this] have ok: "\<forall>e \<in> set (edges gr'). edge_ok e" .
    have top': "topology ig1 = ECHO_CHAMBER" using top ECHO_CHAMBER by simp
    have "add_agents (InfluenceGraph_init t) agents g = Inr (ig1\<lparr>graph := gr'\<rparr>, g')"
      unfolding add_agents_def create_network_edges_def ig1_def[symmetric] top'
      using run unfolding d_def[symmetric] names_def by (simp add: Let_def)
    with ok show ?thesis by auto
  next
    case LOOSE_NETWORK
    from loose_loop_succeeds[OF dn subset_refl, of "graph ig1" g] obtain gr' g' where
      run: "loose_loop names names (graph ig1) g = Inr (gr', g')" by blast
    have pre: "\<forall>a \<in> set names. out_targets (edges (graph ig1)) a = []" unfolding e0 by simp
    from loose_loop_props[OF run dn dn subset_refl pre]
    have "\<forall>e \<in> set (edges gr'). fst (snd e) \<noteq> fst e \<and> 1 / 10 \<le> snd (snd e)"
      unfolding e0 by simp
    then have ok: "\<forall>e \<in> set (edges gr'). edge_ok e" by (fastforce simp: edge_ok_def)
    have top': "topology ig1 = LOOSE_NETWORK" using top LOOSE_NETWORK by simp
    have "add_agents (InfluenceGraph_init t) agents g = Inr (ig1\<lparr>graph := gr'\<rparr>, g')"
      unfolding add_agents_def create_network_edges_def ig1_def[symmetric] top'
      using run unfolding d_def[symmetric] names_def by (simp add: Let_def)
    with ok show ?thesis by auto
  next
    case REAL_FOLLOWER
    define sorted_agents where "sorted_agents = sort_key (descending_key d) names"
    define influencers where "influencers = take (max 1 (length sorted_agents div 5)) sorted_agents"
    define followers where "followers = drop (max 1 (length sorted_agents div 5)) sorted_agents"
    have ig1': "ig1 = register_agents agents (InfluenceGraph_init REAL_FOLLOWER)"
      unfolding ig1_def using REAL_FOLLOWER by simp
    from real_follower_built[of agents g] obtain gr' g' where
      res: "add_agents (InfluenceGraph_init REAL_FOLLOWER) agents g = Inr (ig1\<lparr>graph := gr'\<rparr>, g')"
      and fl: "follow_loop d influencers followers (graph ig1) g = Inr (gr', g')"
      unfolding ig1' d_def names_def sorted_agents_def influencers_def followers_def
      by blast
    have whole: "influencers @ followers = sorted_agents"
      unfolding influencers_def followers_def by simp
    have ds: "distinct sorted_agents" unfolding sorted_agents_def using dn by simp
    have di: "distinct influencers" and df: "distinct followers"
      and disj: "set influencers \<inter> set followers = {}"
      using ds unfolding whole[symmetric] by simp_all
    have pre: "\<forall>f \<in> set followers. out_targets (edges (graph ig1)) f = []" unfolding e0 by simp
    from follow_loop_props[OF fl df di pre]
    have p1: "\<forall>e \<in> set (edges gr'). fst e \<in> set followers \<and> fst (snd e) \<in> set influencers
                \<and> snd (snd e) = score_of d (fst (snd e))"
      unfolding e0 by simp
    have pos: "0 < score_of d x" if "x \<in> set influencers" for x
    proof -
      from that have "x \<in> set sorted_agents" unfolding influencers_def by (rule in_set_takeD)
      then have "x \<in> fst ` set d" unfolding sorted_agents_def names_def by simp
      from score_of_mem[OF this] obtain a where "a \<in> snd ` set d"
        and "score_of d x = influence_score (genome a)" by blast
      with vals assms REAL_FOLLOWER show ?thesis by auto
    qed
    have ok: "\<forall>e \<in> set (edges gr'). edge_ok e"
    proof
      fix e assume "e \<in> set (edges gr')"
      with p1 have "fst e \<in> set followers" "fst (snd e) \<in> set influencers"
        "snd (snd e) = score_of d (fst (snd e))" by blast+
      with disj pos show "edge_ok e" by (auto simp: edge_ok_def)
    qed
    from res ok show ?thesis unfolding REAL_FOLLOWER by auto
  qed
qed

text \<open>
  C8: for the population that the builder creates from any configuration (every opinion at
  the neutral 1/2), each of the three topology strategies succeeds on a fresh graph, and
  every edge of the graph it builds joins two different names and has a positive weight.
\<close>

theorem graph_no_self_loops_positive_weights:
  "case add_agents (InfluenceGraph_init t) (fst (create_agent_population config g0)) g of
     Inl e \<Rightarrow> False
   | Inr (ig, g') \<Rightarrow>
       list_all (\<lambda>a. current_opinion a = 1 / 2) (fst (create_agent_population config g0))
     \<and> list_all (\<lambda>e. fst e \<noteq> fst (snd e) \<and> 0 < snd (snd e)) (edges (graph ig))"
proof -
  note F = population_fresh[of config g0]
  have "t = REAL_FOLLOWER \<longrightarrow>
      (\<forall>a \<in> set (fst (create_agent_population config g0)). 0 < influence_score (genome a))"
    using F by (fastforce simp: fresh_agent_def)
  from built_edges_ok[OF this, of g] obtain ig g' where
    res: "add_agents (InfluenceGraph_init t) (fst (create_agent_population config g0)) g = Inr (ig, g')"
    and ok: "\<forall>e \<in> set (edges (graph ig)). edge_ok e" by blast
  have "list_all (\<lambda>a. current_opinion a = 1 / 2) (fst (create_agent_population config g0))"
    using F by (simp add: list_all_iff fresh_agent_def)
  moreover have "list_all (\<lambda>e. fst e \<noteq> fst (snd e) \<and> 0 < snd (snd e)) (edges (graph ig))"
    using ok by (simp add: list_all_iff edge_ok_def)
  ultimately show ?thesis unfolding res by simp
qed

theorem graph_no_self_loops_positive_weights_witness:
  "\<exists>ig g'. add_agents (InfluenceGraph_init ECHO_CHAMBER)
               (fst (create_agent_population demo_config (\<lambda>_. 0))) (\<lambda>_. 0) = Inr (ig, g')
      \<and> list_all (\<lambda>e. fst e \<noteq> fst (snd e) \<and> 0 < snd (snd e)) (edges (graph ig))"
proof (cases "add_agents (InfluenceGraph_init ECHO_CHAMBER)
               (fst (create_agent_population demo_config (\<lambda>_. 0))) (\<lambda>_. 0)")
  case (Inl e)
  with graph_no_self_loops_positive_weights[where t = ECHO_CHAMBER and config = demo_config
      and ?g0.0 = "\<lambda>_. 0" and g = "\<lambda>_. 0"]
  show ?thesis by simp
next
  case (Inr p)
  obtain ig g' where p: "p = (ig, g')" by (cases p)
  have res: "add_agents (InfluenceGraph_init ECHO_CHAMBER)
               (fst (create_agent_population demo_config (\<lambda>_. 0))) (\<lambda>_. 0) = Inr (ig, g')"
    using Inr p by simp
  have "list_all (\<lambda>e. fst e \<noteq> fst (snd e) \<and> 0 < snd (snd e)) (edges (graph ig))"
    using graph_no_self_loops_positive_weights[where t = ECHO_CHAMBER and config = demo_config
      and ?g0.0 = "\<lambda>_. 0" and g = "\<lambda>_. 0"]
    unfolding res by simp
  with res show ?thesis by blast
qed


end
